theory Spec2Isabelle
  imports Main "HOL-Library.Char_ord" "HOL-Library.List_Lexorder" "HOL-Library.Sublist"
begin

section \<open>Text\<close>

text \<open>
  A \<open>QString\<close> is modelled as a \<^typ>\<open>string\<close>: the list of its code units. The model
  covers the ASCII repertoire: case conversion and white space are those of the ASCII
  letters and the ASCII white-space characters, every other character is left alone.
  Strings are compared by \<open>QString::compare\<close>, the lexicographic order of the code
  units, which is the order of \<^typ>\<open>string\<close>.
\<close>

definition toLower :: "char \<Rightarrow> char" where
  "toLower c = (if CHR ''A'' \<le> c \<and> c \<le> CHR ''Z'' then char_of (of_char c + (32::nat)) else c)"

definition isSpace :: "char \<Rightarrow> bool" where
  "isSpace c = (c \<in> set [CHR 0x09, CHR 0x0A, CHR 0x0B, CHR 0x0C, CHR 0x0D, CHR 0x20])"

definition trimmed :: "string \<Rightarrow> string" where
  "trimmed s = rev (dropWhile isSpace (rev (dropWhile isSpace s)))"

datatype CaseSensitivity = CaseSensitive | CaseInsensitive

text \<open>\<open>QString::contains(term, cs)\<close>: some position of the text carries the term.\<close>

fun contains_str :: "string \<Rightarrow> string \<Rightarrow> CaseSensitivity \<Rightarrow> bool" where
  "contains_str s t CaseSensitive = sublist t s"
| "contains_str s t CaseInsensitive = sublist (map toLower t) (map toLower s)"

definition startsWith :: "string \<Rightarrow> string \<Rightarrow> bool" where
  "startsWith s t = prefix t s"

text \<open>
  The wildcard patterns of a name filter, as far as the program uses them: \<open>*\<close> stands
  for any run of characters, every other character for itself. \<open>QDir\<close> matches the whole
  name against the pattern and ignores the case of letters (the program never passes
  \<open>QDir::CaseSensitive\<close>).
\<close>

fun wildcardMatch :: "string \<Rightarrow> string \<Rightarrow> bool" where
  "wildcardMatch [] s = (s = [])"
| "wildcardMatch (p # ps) [] = (p = CHR ''*'' \<and> wildcardMatch ps [])"
| "wildcardMatch (p # ps) (c # cs) =
     (if p = CHR ''*'' then wildcardMatch ps (c # cs) \<or> wildcardMatch (p # ps) cs
      else toLower p = toLower c \<and> wildcardMatch ps cs)"

section \<open>The file system\<close>

text \<open>
  The disk is a finite tree. A directory entry is a regular file or a directory, reached
  directly or through a symbolic link (\<open>isSymLink\<close>); a link to a directory shows the
  entries of its target. A file that cannot be opened has no contents; a directory that
  cannot be listed is not \<open>readable\<close>. The entries \<open>.\<close> and \<open>..\<close> are not part of the
  tree. The list of a directory's entries is in the order in which the operating system
  enumerates them. A path is the list of its components, from the root of the disk.
\<close>

datatype entry =
    File (name: string) (isSymLink: bool) "string option"
  | Dir (name: string) (isSymLink: bool) bool "entry list"

type_synonym path = "string list"

fun isDir :: "entry \<Rightarrow> bool" where
  "isDir (Dir n l r es) = True"
| "isDir (File n l c) = False"

fun isFile :: "entry \<Rightarrow> bool" where
  "isFile (File n l c) = True"
| "isFile (Dir n l r es) = False"

text \<open>\<open>QFileInfo::isHidden\<close>: on Unix, the name starts with a dot.\<close>

definition isHidden :: "entry \<Rightarrow> bool" where
  "isHidden e = (take 1 (name e) = ''.'')"

fun children :: "entry \<Rightarrow> entry list" where
  "children (Dir n l r es) = es"
| "children (File n l c) = []"

text \<open>Path resolution, from an entry downwards.\<close>

fun resolve :: "entry \<Rightarrow> path \<Rightarrow> entry option" where
  "resolve e [] = Some e"
| "resolve e (n # ns) =
     (case find (\<lambda>c. name c = n) (children e) of
        None \<Rightarrow> None
      | Some c \<Rightarrow> resolve c ns)"

text \<open>\<open>QFile::exists\<close>: the path leads to something.\<close>

definition exists_path :: "entry \<Rightarrow> path \<Rightarrow> bool" where
  "exists_path disk p = (resolve disk p \<noteq> None)"

text \<open>\<open>QFile::open\<close> for reading, followed by \<open>readAll\<close>: the text, if the file opens.\<close>

definition open_read :: "entry \<Rightarrow> path \<Rightarrow> string option" where
  "open_read disk p =
     (case resolve disk p of
        Some (File n l c) \<Rightarrow> c
      | _ \<Rightarrow> None)"

text \<open>What the operating system enumerates for a directory path: nothing when the path
  does not exist, is not a directory or cannot be listed.\<close>

definition readdir :: "entry \<Rightarrow> path \<Rightarrow> entry list" where
  "readdir disk dirPath =
     (case resolve disk dirPath of
        Some (Dir n l r es) \<Rightarrow> if r then es else []
      | _ \<Rightarrow> [])"

section \<open>QDir listings\<close>

text \<open>
  \<open>QDir\<close>, \<open>QFile\<close> and \<open>QFileInfo\<close> belong to Qt, not to the program; they are
  written here as Qt 5 documents them, for the flags the program passes.
\<close>

datatype QFileInfo = QFileInfo (absolutePath: path) (fileName: string)

definition absoluteFilePath :: "QFileInfo \<Rightarrow> path" where
  "absoluteFilePath fi = absolutePath fi @ [fileName fi]"

text \<open>\<open>QDir(dirPath).filePath(n)\<close>.\<close>

definition QDir_filePath :: "path \<Rightarrow> string \<Rightarrow> path" where
  "QDir_filePath dirPath n = dirPath @ [n]"

datatype Filter = Dirs | Files | NoSymLinks | NoDotAndDotDot

datatype SortFlags = NoSort | Name

text \<open>
  The test \<open>QDirIterator\<close> applies to each entry. Hidden entries are listed only with
  \<open>QDir::Hidden\<close>, which the program never passes. An empty list of name filters lets
  every name through.
\<close>

definition matchesFilters :: "string list \<Rightarrow> Filter set \<Rightarrow> entry \<Rightarrow> bool" where
  "matchesFilters nameFilters filters e =
     (\<not> (NoSymLinks \<in> filters \<and> isSymLink e) \<and>
      \<not> (Dirs \<notin> filters \<and> isDir e) \<and>
      \<not> (Files \<notin> filters \<and> isFile e) \<and>
      \<not> isHidden e \<and>
      (nameFilters = [] \<or> list_ex (\<lambda>p. wildcardMatch p (name e)) nameFilters))"

text \<open>
  \<open>QDir::Name\<close> sorts by file name. \<open>QDir::NoSort\<close> stands for the sorting of the
  \<open>QDir\<close> object, which for \<open>QDir(path)\<close> is \<open>QDir::Name | QDir::IgnoreCase\<close>: by
  lower-cased name. Qt leaves the order of two names that differ only in letter case
  open; here they keep the order of enumeration.
\<close>

fun sortFileList :: "SortFlags \<Rightarrow> QFileInfo list \<Rightarrow> QFileInfo list" where
  "sortFileList Name fis = sort_key fileName fis"
| "sortFileList NoSort fis = sort_key (\<lambda>fi. map toLower (fileName fi)) fis"

definition entryInfoList ::
  "entry \<Rightarrow> path \<Rightarrow> string list \<Rightarrow> Filter set \<Rightarrow> SortFlags \<Rightarrow> QFileInfo list" where
  "entryInfoList disk dirPath nameFilters filters sortFlags =
     sortFileList sortFlags
       (map (\<lambda>e. QFileInfo dirPath (name e))
          (filter (matchesFilters nameFilters filters) (readdir disk dirPath)))"

definition entryList ::
  "entry \<Rightarrow> path \<Rightarrow> string list \<Rightarrow> Filter set \<Rightarrow> SortFlags \<Rightarrow> string list" where
  "entryList disk dirPath nameFilters filters sortFlags =
     map fileName (entryInfoList disk dirPath nameFilters filters sortFlags)"

section \<open>The recursive finder\<close>

text \<open>The measure of the recursion: the size of what a path leads to.\<close>

definition weight :: "entry \<Rightarrow> path \<Rightarrow> nat" where
  "weight disk p = (case resolve disk p of None \<Rightarrow> 0 | Some e \<Rightarrow> size e)"

lemma find_name_size:
  assumes "e \<in> set es"
  shows "\<exists>c. find (\<lambda>c. name c = name e) es = Some c \<and> c \<in> set es"
  using assms by (induction es) auto

lemma resolve_append:
  "resolve e (p @ q) = (case resolve e p of None \<Rightarrow> None | Some d \<Rightarrow> resolve d q)"
  by (induction e p rule: resolve.induct) (auto split: option.splits)

lemma size_child: "c \<in> set (children e) \<Longrightarrow> size c < size e"
  by (cases e) (auto simp: less_Suc_eq_le size_list_estimation')

lemma weight_child:
  assumes "e \<in> set (readdir disk dirPath)"
  shows "weight disk (dirPath @ [name e]) < weight disk dirPath"
proof -
  from assms obtain n l es where d: "resolve disk dirPath = Some (Dir n l True es)" and e: "e \<in> set es"
    by (cases "resolve disk dirPath") (auto simp: readdir_def split: entry.splits if_splits)
  from find_name_size [OF e] obtain c where c: "find (\<lambda>c. name c = name e) es = Some c" "c \<in> set es"
    by blast
  have "resolve disk (dirPath @ [name e]) = Some c"
    using d c by (simp add: resolve_append)
  moreover have "size c < size (Dir n l True es)"
    using c(2) by (intro size_child) simp
  ultimately show ?thesis
    using d by (simp add: weight_def)
qed

lemma set_sortFileList: "set (sortFileList sortFlags fis) = set fis"
  by (cases sortFlags) simp_all

lemma entryInfoList_readdir:
  assumes "fi \<in> set (entryInfoList disk dirPath nameFilters filters sortFlags)"
  shows "\<exists>e \<in> set (readdir disk dirPath). fi = QFileInfo dirPath (name e) \<and> matchesFilters nameFilters filters e"
  using assms by (auto simp: entryInfoList_def set_sortFileList)

function recursiveFindHtml :: "entry \<Rightarrow> path \<Rightarrow> QFileInfo list" where
  "recursiveFindHtml disk dirPath =
     concat (map (\<lambda>fi. recursiveFindHtml disk (absoluteFilePath fi))
              (entryInfoList disk dirPath [] {Dirs, NoDotAndDotDot} NoSort))
     @ entryInfoList disk dirPath [''*.html'', ''*.htm''] {Files, NoSymLinks} Name"
  by pat_completeness auto
termination
proof (relation "measure (\<lambda>(disk, p). weight disk p)")
  show "wf (measure (\<lambda>(disk, p). weight disk p))" by simp
next
  fix disk dirPath fi
  assume "fi \<in> set (entryInfoList disk dirPath [] {Dirs, NoDotAndDotDot} NoSort)"
  then obtain e where "e \<in> set (readdir disk dirPath)" "fi = QFileInfo dirPath (name e)"
    using entryInfoList_readdir by blast
  then show "((disk, absoluteFilePath fi), (disk, dirPath)) \<in> measure (\<lambda>(disk, p). weight disk p)"
    using weight_child [of e disk dirPath] by (simp add: absoluteFilePath_def)
qed

declare recursiveFindHtml.simps [simp del]

text \<open>The loop over the subdirectories, for evaluation: one subdirectory at a time.\<close>

definition descend :: "entry \<Rightarrow> QFileInfo list \<Rightarrow> QFileInfo list" where
  "descend disk fis = concat (map (\<lambda>fi. recursiveFindHtml disk (absoluteFilePath fi)) fis)"

lemma descend_simps [simp, code]:
  "descend disk [] = []"
  "descend disk (fi # fis) = recursiveFindHtml disk (absoluteFilePath fi) @ descend disk fis"
  by (simp_all add: descend_def)

lemma recursiveFindHtml_code [code]:
  "recursiveFindHtml disk dirPath =
     descend disk (entryInfoList disk dirPath [] {Dirs, NoDotAndDotDot} NoSort)
     @ entryInfoList disk dirPath [''*.html'', ''*.htm''] {Files, NoSymLinks} Name"
  by (simp add: descend_def recursiveFindHtml.simps [of disk dirPath])

section \<open>The window\<close>

text \<open>
  The fields of \<open>MiniBrowser\<close> that the search, the result list and the Home action read
  or write. \<open>webview\<close> is the local file the view was last asked to load, \<open>statusBar\<close>
  the message it shows, \<open>messageBox\<close> the information dialogs shown so far (title and
  text). The disk and the text of the displayed page are not fields of the window: the
  slots take them as arguments. A path is shown in a message with a slash before each
  component.
\<close>

record QListWidgetItem =
  itemText :: string
  userRole :: path

record MiniBrowser =
  searchEdit :: string
  scopeCombo :: string
  resultsList :: "QListWidgetItem list"
  statusBar :: string
  webview :: "path option"
  siteDir :: path
  messageBox :: "(string \<times> string) list"

definition pathString :: "path \<Rightarrow> string" where
  "pathString p = concat (map (\<lambda>n. ''/'' @ n) p)"

definition loadLocal :: "path \<Rightarrow> MiniBrowser \<Rightarrow> MiniBrowser" where
  "loadLocal filePath w = w\<lparr>webview := Some filePath, statusBar := ''Loaded: '' @ pathString filePath\<rparr>"

datatype FindFlag = FindBackward | FindCaseSensitively

text \<open>\<open>QWebEnginePage::findText\<close>, as far as its callback sees it: whether the text of the
  page holds the string, letter case respected only under \<open>FindCaseSensitively\<close>.\<close>

definition findText :: "string \<Rightarrow> string \<Rightarrow> FindFlag set \<Rightarrow> bool" where
  "findText page subString options =
     contains_str page subString
       (if FindCaseSensitively \<in> options then CaseSensitive else CaseInsensitive)"

text \<open>The label of a result: file name, a dash (U+2014, here in UTF-8) and the path.\<close>

definition newItem :: "QFileInfo \<Rightarrow> QListWidgetItem" where
  "newItem fi =
     \<lparr>itemText = fileName fi @ [CHR 0x20, CHR 0xE2, CHR 0x80, CHR 0x94, CHR 0x20]
                   @ pathString (absoluteFilePath fi),
      userRole = absoluteFilePath fi\<rparr>"

text \<open>
  The slot \<open>onSearch\<close>. In the scope of the current page the status message is the
  one the callback of \<open>findText\<close> sets. In the scope of the folder the first listing
  of the site directory is overwritten by the result of the finder before it is read,
  and is left out. The loop over the files carries the items added so far and the flag
  \<open>any\<close>.
\<close>

fun searchFiles ::
  "entry \<Rightarrow> string \<Rightarrow> QFileInfo list \<Rightarrow> QListWidgetItem list \<times> bool \<Rightarrow> QListWidgetItem list \<times> bool" where
  "searchFiles disk term [] (items, any) = (items, any)"
| "searchFiles disk term (fi # files) (items, any) =
     (case open_read disk (absoluteFilePath fi) of
        None \<Rightarrow> searchFiles disk term files (items, any)
      | Some contents \<Rightarrow>
          if contains_str contents term CaseInsensitive
          then searchFiles disk term files (items @ [newItem fi], True)
          else searchFiles disk term files (items, any))"

definition noMatchesOnPage :: "string \<Rightarrow> string" where
  "noMatchesOnPage term = ''No matches for '' @ [CHR 0x27] @ term @ [CHR 0x27] @ '' on current page''"

definition noMatchesInSite :: "string \<Rightarrow> string" where
  "noMatchesInSite term = ''No matches for '' @ [CHR 0x27] @ term @ [CHR 0x27] @ '' in site directory''"

definition onSearch :: "entry \<Rightarrow> string \<Rightarrow> MiniBrowser \<Rightarrow> MiniBrowser" where
  "onSearch disk page w =
     (let term = trimmed (searchEdit w) in
      if term = [] then w
      else
        let w1 = w\<lparr>resultsList := []\<rparr> in
        if startsWith (scopeCombo w1) ''Current'' then
          (if findText page term {FindCaseSensitively}
           then w1\<lparr>statusBar := ''Found on page: '' @ term\<rparr>
           else w1\<lparr>statusBar := noMatchesOnPage term\<rparr>)
        else
          let files = recursiveFindHtml disk (siteDir w1);
              (items, any) = searchFiles disk term files (resultsList w1, False)
          in w1\<lparr>resultsList := items,
                statusBar := (if \<not> any then noMatchesInSite term else ''Search complete'')\<rparr>)"

definition onResultActivated :: "QListWidgetItem \<Rightarrow> MiniBrowser \<Rightarrow> MiniBrowser" where
  "onResultActivated item w =
     (let file = userRole item in if file \<noteq> [] then loadLocal file w else w)"

definition homeNotFound :: "path \<Rightarrow> string \<times> string" where
  "homeNotFound d =
     (''Home not found'',
      ''No index.html, index.htm, or other HTML files found in '' @ pathString d)"

definition onHome :: "entry \<Rightarrow> MiniBrowser \<Rightarrow> MiniBrowser" where
  "onHome disk w =
     (let idx = QDir_filePath (siteDir w) ''index.html'';
          idx = (if \<not> exists_path disk idx then QDir_filePath (siteDir w) ''index.htm'' else idx)
      in if exists_path disk idx then loadLocal idx w
         else
           (case entryList disk (siteDir w) [''*.html'', ''*.htm''] {Files} Name of
              first # rest \<Rightarrow> loadLocal (QDir_filePath (siteDir w) first) w
            | [] \<Rightarrow> w\<lparr>messageBox := messageBox w @ [homeNotFound (siteDir w)]\<rparr>))"

section \<open>Auxiliary notions and example data\<close>

text \<open>Whether the loop of \<open>onSearch\<close> adds a file: it opens and its text holds the term.\<close>

definition fileMatches :: "entry \<Rightarrow> string \<Rightarrow> QFileInfo \<Rightarrow> bool" where
  "fileMatches disk term fi =
     (case open_read disk (absoluteFilePath fi) of
        None \<Rightarrow> False
      | Some contents \<Rightarrow> contains_str contents term CaseInsensitive)"

text \<open>A path that leads to a directory which cannot be listed.\<close>

definition unreadableDir :: "entry \<Rightarrow> path \<Rightarrow> bool" where
  "unreadableDir disk p = (case resolve disk p of Some (Dir n l r es) \<Rightarrow> \<not> r | _ \<Rightarrow> False)"

text \<open>A disk with a site directory, and a window whose search box holds a term.\<close>

definition example_site :: entry where
  "example_site = Dir ''site'' False True
     [File ''b.html'' False (Some ''Hello World''),
      File ''.draft.html'' False (Some ''hello''),
      File ''A.HTM'' False None,
      File ''notes.txt'' False (Some ''Hello''),
      File ''ln.html'' True (Some ''Hello''),
      Dir ''sub'' False True [File ''z.htm'' False (Some ''say HELLO''), File ''c.html'' False (Some ''nope'')],
      Dir ''.git'' False True [File ''g.html'' False (Some ''hello'')],
      Dir ''locked'' False False [File ''k.html'' False (Some ''hello'')]]"

definition example_disk :: entry where
  "example_disk = Dir ''/'' False True [example_site]"

definition example_window :: MiniBrowser where
  "example_window = \<lparr>searchEdit = '' hello '', scopeCombo = ''All subpages (folder)'', resultsList = [],
     statusBar = ''Ready'', webview = None, siteDir = [''site''], messageBox = []\<rparr>"

text \<open>
  A real directory holds no two entries of one name: the condition on a tree under
  which a path names one entry.
\<close>

fun distinct_names :: "entry \<Rightarrow> bool" where
  "distinct_names (File n l c) = True"
| "distinct_names (Dir n l r es) = (distinct (map name es) \<and> (\<forall>e \<in> set es. distinct_names e))"

text \<open>No directory below the entry is reached through a symbolic link.\<close>

fun no_linked_dirs :: "entry \<Rightarrow> bool" where
  "no_linked_dirs (File n l c) = True"
| "no_linked_dirs (Dir n l r es) = (\<forall>e \<in> set es. \<not> (isDir e \<and> isSymLink e) \<and> no_linked_dirs e)"

text \<open>A directory that can be listed.\<close>

fun listable :: "entry \<Rightarrow> bool" where
  "listable (Dir n l r es) = r"
| "listable (File n l c) = False"

text \<open>A name that ends in \<open>.html\<close> or \<open>.htm\<close>, letter case ignored; the files and
  subdirectories that are neither hidden nor symbolic links.\<close>

definition htmlName :: "string \<Rightarrow> bool" where
  "htmlName n = (suffix ''.html'' (map toLower n) \<or> suffix ''.htm'' (map toLower n))"

definition visibleHtmlFile :: "entry \<Rightarrow> bool" where
  "visibleHtmlFile e = (isFile e \<and> \<not> isSymLink e \<and> \<not> isHidden e \<and> htmlName (name e))"

definition visibleSubdir :: "entry \<Rightarrow> bool" where
  "visibleSubdir e = (isDir e \<and> \<not> isSymLink e \<and> \<not> isHidden e)"

text \<open>
  The components \<open>ns\<close> lead from the directory \<open>d\<close> to a visible HTML file through
  visible, listable subdirectories only (\<open>d\<close> itself has to be listable).
\<close>

fun reachesHtml :: "entry \<Rightarrow> path \<Rightarrow> bool" where
  "reachesHtml d [] = False"
| "reachesHtml d (n # ns) =
     (listable d \<and>
      (case find (\<lambda>c. name c = n) (children d) of
         None \<Rightarrow> False
       | Some c \<Rightarrow> if ns = [] then visibleHtmlFile c else visibleSubdir c \<and> reachesHtml c ns))"

text \<open>
  The count of claim C1 in the words of the specification: every file whose name ends
  in \<open>.html\<close> or \<open>.htm\<close>, at any depth in the tree of an entry, symbolic links
  excluded as the contract of the finder says. The first argument is the path of the
  directory that holds the entry.
\<close>

fun spec_html_files :: "path \<Rightarrow> entry \<Rightarrow> path list" where
  "spec_html_files p (File n l c) =
     (if \<not> l \<and> (suffix ''.html'' n \<or> suffix ''.htm'' n) then [p @ [n]] else [])"
| "spec_html_files p (Dir n l r es) =
     (if l then [] else concat (map (\<lambda>e. spec_html_files (p @ [n]) e) es))"

text \<open>A site with a hidden file and a hidden directory, all else plain.\<close>

definition hidden_site :: entry where
  "hidden_site = Dir ''site'' False True
     [File ''index.html'' False (Some ''home''),
      File ''.draft.html'' False (Some ''draft''),
      Dir ''.old'' False True [File ''ch1.html'' False (Some ''chapter'')]]"

definition hidden_disk :: entry where
  "hidden_disk = Dir ''/'' False True [hidden_site]"

text \<open>
  Elements of equal key stand together in a list; and the relation of two files that
  are in name order when they are in one directory.
\<close>

definition grouped_by :: "('a \<Rightarrow> 'k) \<Rightarrow> 'a list \<Rightarrow> bool" where
  "grouped_by key xs =
     (\<forall>i j k. i < j \<and> j < k \<and> k < length xs \<and> key (xs ! i) = key (xs ! k)
        \<longrightarrow> key (xs ! j) = key (xs ! i))"

definition same_dir_by_name :: "QFileInfo \<Rightarrow> QFileInfo \<Rightarrow> bool" where
  "same_dir_by_name a b = (absolutePath a = absolutePath b \<longrightarrow> fileName a < fileName b)"

text \<open>A site with three pages in a subdirectory, enumerated out of order.\<close>

definition ordered_site :: entry where
  "ordered_site = Dir ''site'' False True
     [File ''b.html'' False (Some ''b''),
      Dir ''docs'' False True
        [File ''c.html'' False (Some ''c''), File ''a.html'' False (Some ''a''),
         File ''B.html'' False (Some ''B'')],
      File ''a.htm'' False (Some ''a'')]"

definition ordered_disk :: entry where
  "ordered_disk = Dir ''/'' False True [ordered_site]"

text \<open>
  The order of claim C3 in its own words: names in alphabetical order, a letter standing
  at its place in the alphabet whatever its case.
\<close>

definition spec_alphabetical :: "string list \<Rightarrow> bool" where
  "spec_alphabetical names = sorted (map (map toLower) names)"

text \<open>A site with two pages whose names differ in the case of the first letter.\<close>

definition mixed_disk :: entry where
  "mixed_disk = Dir ''/'' False True
     [Dir ''site'' False True
        [File ''apple.html'' False (Some ''apple''), File ''Zebra.html'' False (Some ''zebra'')]]"

text \<open>
  The names among which Home picks when there is no index file: the files directly in
  the directory that are not hidden and whose names end in \<open>.html\<close> or \<open>.htm\<close>.
\<close>

definition homeCandidates :: "entry \<Rightarrow> path \<Rightarrow> string set" where
  "homeCandidates disk d =
     {name e | e. e \<in> set (readdir disk d) \<and> isFile e \<and> \<not> isHidden e \<and> htmlName (name e)}"

text \<open>
  The page of claim C9 in its own words: \<open>index.html\<close> if it exists, else
  \<open>index.htm\<close> if it exists, else the first in name order of the files directly in
  the directory that match \<open>*.html\<close> or \<open>*.htm\<close>, else none.
\<close>

definition spec_home :: "entry \<Rightarrow> path \<Rightarrow> path option" where
  "spec_home disk d =
     (if exists_path disk (d @ [''index.html'']) then Some (d @ [''index.html''])
      else if exists_path disk (d @ [''index.htm'']) then Some (d @ [''index.htm''])
      else (case sort (map name (filter (\<lambda>e. isFile e \<and> list_ex (\<lambda>p. wildcardMatch p (name e)) [''*.html'', ''*.htm''])
                                  (readdir disk d))) of
              [] \<Rightarrow> None
            | f # fs \<Rightarrow> Some (d @ [f])))"

text \<open>A site whose only file is hidden, and a site whose index is \<open>index.htm\<close>.\<close>

definition dot_disk :: entry where
  "dot_disk = Dir ''/'' False True [Dir ''site'' False True [File ''.notes.html'' False (Some ''notes'')]]"

definition htm_disk :: entry where
  "htm_disk = Dir ''/'' False True
     [Dir ''site'' False True [File ''about.html'' False (Some ''about''), File ''index.htm'' False (Some ''home'')]]"

text \<open>A site whose only page reads \<open>Hello\<close>, and a window searching for \<open>hello\<close>.\<close>

definition case_disk :: entry where
  "case_disk = Dir ''/'' False True [Dir ''site'' False True [File ''index.html'' False (Some ''Hello'')]]"

definition case_window :: MiniBrowser where
  "case_window = \<lparr>searchEdit = ''hello'', scopeCombo = ''Current page'', resultsList = [],
     statusBar = ''Ready'', webview = None, siteDir = [''site''], messageBox = []\<rparr>"

text \<open>A site with a symbolic link to a directory and a symbolic link to a file.\<close>

definition linked_disk :: entry where
  "linked_disk = Dir ''/'' False True
     [Dir ''site'' False True
        [Dir ''shared'' True True [File ''a.html'' False (Some ''text'')],
         File ''ln.html'' True (Some ''text'')]]"

section \<open>Properties of the search\<close>

lemma searchFiles_filter:
  "searchFiles disk term files (items, any) =
     (items @ map newItem (filter (fileMatches disk term) files),
      any \<or> list_ex (fileMatches disk term) files)"
  by (induction files arbitrary: items any) (auto simp: fileMatches_def split: option.splits)

lemma onSearch_folder:
  assumes "trimmed (searchEdit w) = term" "term \<noteq> []" "\<not> startsWith (scopeCombo w) ''Current''"
  shows "onSearch disk page w =
     w\<lparr>resultsList := map newItem (filter (fileMatches disk term) (recursiveFindHtml disk (siteDir w))),
        statusBar := (if list_ex (fileMatches disk term) (recursiveFindHtml disk (siteDir w))
                      then ''Search complete'' else noMatchesInSite term)\<rparr>"
  using assms by (simp add: onSearch_def Let_def searchFiles_filter)

lemma userRole_newItem: "userRole (newItem fi) = absoluteFilePath fi"
  by (simp add: newItem_def)

lemma readdir_Nil: "readdir disk dirPath = [] \<Longrightarrow> recursiveFindHtml disk dirPath = []"
  by (simp add: recursiveFindHtml.simps [of disk dirPath] entryInfoList_def)

lemma concat_map_filter_Nil:
  "(\<And>x. x \<in> set xs \<Longrightarrow> \<not> P x \<Longrightarrow> f x = []) \<Longrightarrow> concat (map f (filter P xs)) = concat (map f xs)"
  by (induction xs) auto

lemma unreadableDir_readdir: "unreadableDir disk p \<Longrightarrow> readdir disk p = []"
  by (auto simp: unreadableDir_def readdir_def split: option.splits entry.splits)

text \<open>
  Claim C7. When the text of the search box is empty after trimming white space,
  \<open>onSearch\<close> does nothing: the window (results list, displayed page, status message
  and every other field) is left as it was.
\<close>

theorem onSearch_empty_term_noop:
  assumes "trimmed (searchEdit w) = []"
  shows "onSearch disk page w = w"
  using assms by (simp add: onSearch_def)

theorem onSearch_empty_term_noop_witness:
  "trimmed (searchEdit (example_window\<lparr>searchEdit := ''  ''\<rparr>)) = [] \<and>
   onSearch example_disk ''Hello'' (example_window\<lparr>searchEdit := ''  ''\<rparr>)
     = example_window\<lparr>searchEdit := ''  ''\<rparr>"
proof -
  have h: "trimmed (searchEdit (example_window\<lparr>searchEdit := ''  ''\<rparr>)) = []" by code_simp
  from onSearch_empty_term_noop [OF h] h show ?thesis by simp
qed

text \<open>
  Claim C2. In the folder scope, a file returned by the finder whose text can be read is
  among the results exactly when the search term occurs in its text as a contiguous
  substring, letter case ignored; so a file without any occurrence is left out, and a
  file whose text differs from the term only in letter case is included.
\<close>

theorem folder_search_includes_iff_contains:
  assumes "trimmed (searchEdit w) = term" and "term \<noteq> []"
    and "\<not> startsWith (scopeCombo w) ''Current''"
    and "fi \<in> set (recursiveFindHtml disk (siteDir w))"
    and "open_read disk (absoluteFilePath fi) = Some contents"
  shows "(absoluteFilePath fi \<in> set (map userRole (resultsList (onSearch disk page w)))
            \<longleftrightarrow> (\<exists>before after. map toLower contents = before @ map toLower term @ after))
         \<and> (map toLower contents = map toLower term
            \<longrightarrow> absoluteFilePath fi \<in> set (map userRole (resultsList (onSearch disk page w))))"
proof -
  let ?R = "recursiveFindHtml disk (siteDir w)"
  have same: "fileMatches disk term fi' = fileMatches disk term fi"
    if "absoluteFilePath fi' = absoluteFilePath fi" for fi'
    using that by (simp add: fileMatches_def)
  have "set (map userRole (resultsList (onSearch disk page w)))
          = absoluteFilePath ` {fi' \<in> set ?R. fileMatches disk term fi'}"
    by (simp add: onSearch_folder [OF assms(1-3)] image_image userRole_newItem o_def)
  moreover have "absoluteFilePath fi \<in> absoluteFilePath ` {fi' \<in> set ?R. fileMatches disk term fi'}
          \<longleftrightarrow> fileMatches disk term fi"
  proof
    assume "absoluteFilePath fi \<in> absoluteFilePath ` {fi' \<in> set ?R. fileMatches disk term fi'}"
    then obtain fi' where "fileMatches disk term fi'" "absoluteFilePath fi' = absoluteFilePath fi"
      by force
    then show "fileMatches disk term fi" using same by blast
  next
    assume "fileMatches disk term fi"
    with assms(4) show "absoluteFilePath fi \<in> absoluteFilePath ` {fi' \<in> set ?R. fileMatches disk term fi'}"
      by blast
  qed
  ultimately have "absoluteFilePath fi \<in> set (map userRole (resultsList (onSearch disk page w)))
          \<longleftrightarrow> fileMatches disk term fi"
    by simp
  moreover have "fileMatches disk term fi \<longleftrightarrow> sublist (map toLower term) (map toLower contents)"
    using assms(5) by (simp add: fileMatches_def)
  ultimately have iff: "absoluteFilePath fi \<in> set (map userRole (resultsList (onSearch disk page w)))
          \<longleftrightarrow> sublist (map toLower term) (map toLower contents)"
    by simp
  show ?thesis
  proof
    show "absoluteFilePath fi \<in> set (map userRole (resultsList (onSearch disk page w)))
            \<longleftrightarrow> (\<exists>before after. map toLower contents = before @ map toLower term @ after)"
      using iff by (simp add: sublist_def)
    show "map toLower contents = map toLower term
            \<longrightarrow> absoluteFilePath fi \<in> set (map userRole (resultsList (onSearch disk page w)))"
      using iff by simp
  qed
qed

theorem folder_search_includes_iff_contains_witness:
  "QFileInfo [''site'', ''sub''] ''z.htm'' \<in> set (recursiveFindHtml example_disk (siteDir example_window)) \<and>
   open_read example_disk [''site'', ''sub'', ''z.htm''] = Some ''say HELLO'' \<and>
   [''site'', ''sub'', ''z.htm''] \<in> set (map userRole (resultsList (onSearch example_disk [] example_window))) \<and>
   QFileInfo [''site'', ''sub''] ''c.html'' \<in> set (recursiveFindHtml example_disk (siteDir example_window)) \<and>
   open_read example_disk [''site'', ''sub'', ''c.html''] = Some ''nope'' \<and>
   [''site'', ''sub'', ''c.html''] \<notin> set (map userRole (resultsList (onSearch example_disk [] example_window)))"
proof -
  have h1: "trimmed (searchEdit example_window) = ''hello''" by code_simp
  have h2: "''hello'' \<noteq> []" by simp
  have h3: "\<not> startsWith (scopeCombo example_window) ''Current''" by code_simp
  have h4: "QFileInfo [''site'', ''sub''] ''z.htm'' \<in> set (recursiveFindHtml example_disk (siteDir example_window))"
    by code_simp
  have h5: "open_read example_disk (absoluteFilePath (QFileInfo [''site'', ''sub''] ''z.htm'')) = Some ''say HELLO''"
    by code_simp
  have h6: "sublist (map toLower ''hello'') (map toLower ''say HELLO'')" by code_simp
  have g4: "QFileInfo [''site'', ''sub''] ''c.html'' \<in> set (recursiveFindHtml example_disk (siteDir example_window))"
    by code_simp
  have g5: "open_read example_disk (absoluteFilePath (QFileInfo [''site'', ''sub''] ''c.html'')) = Some ''nope''"
    by code_simp
  have g6: "\<not> sublist (map toLower ''hello'') (map toLower ''nope'')" by code_simp
  from folder_search_includes_iff_contains [OF h1 h2 h3 h4 h5, of "[]"] h6
  have a: "[''site'', ''sub'', ''z.htm''] \<in> set (map userRole (resultsList (onSearch example_disk [] example_window)))"
    by (simp add: sublist_def absoluteFilePath_def)
  from folder_search_includes_iff_contains [OF h1 h2 h3 g4 g5, of "[]"] g6
  have b: "[''site'', ''sub'', ''c.html''] \<notin> set (map userRole (resultsList (onSearch example_disk [] example_window)))"
    by (simp add: sublist_def absoluteFilePath_def)
  from a b h4 h5 g4 g5 show ?thesis by (simp add: absoluteFilePath_def)
qed


text \<open>
  Claim C5. In the folder scope, a file of the finder's output that cannot be opened is
  skipped: the window after the search is the one the loop produces over the other
  files alone (their items and the status message), and no result carries the path of
  the file. \<open>onSearch\<close> is a total function: there is no error outcome.
\<close>

theorem unreadable_file_skipped:
  assumes "trimmed (searchEdit w) = term" and "term \<noteq> []"
    and "\<not> startsWith (scopeCombo w) ''Current''"
    and "recursiveFindHtml disk (siteDir w) = before @ fi # after"
    and "open_read disk (absoluteFilePath fi) = None"
  shows "onSearch disk page w =
           (let (items, any) = searchFiles disk term (before @ after) ([], False)
            in w\<lparr>resultsList := items,
                 statusBar := (if \<not> any then noMatchesInSite term else ''Search complete'')\<rparr>)
         \<and> absoluteFilePath fi \<notin> set (map userRole (resultsList (onSearch disk page w)))"
proof -
  have no: "\<not> fileMatches disk term fi'" if "absoluteFilePath fi' = absoluteFilePath fi" for fi'
    using that assms(5) by (simp add: fileMatches_def)
  have "absoluteFilePath fi \<notin> absoluteFilePath ` {fi' \<in> set (recursiveFindHtml disk (siteDir w)). fileMatches disk term fi'}"
  proof
    assume "absoluteFilePath fi \<in> absoluteFilePath ` {fi' \<in> set (recursiveFindHtml disk (siteDir w)). fileMatches disk term fi'}"
    then obtain fi' where "fileMatches disk term fi'" "absoluteFilePath fi' = absoluteFilePath fi"
      by force
    with no show False by blast
  qed
  then have "absoluteFilePath fi \<notin> set (map userRole (resultsList (onSearch disk page w)))"
    by (simp add: onSearch_folder [OF assms(1-3)] image_image userRole_newItem o_def)
  moreover have "onSearch disk page w =
           (let (items, any) = searchFiles disk term (before @ after) ([], False)
            in w\<lparr>resultsList := items,
                 statusBar := (if \<not> any then noMatchesInSite term else ''Search complete'')\<rparr>)"
    using no [of fi] by (simp add: onSearch_folder [OF assms(1-3)] assms(4) searchFiles_filter)
  ultimately show ?thesis by simp
qed

theorem unreadable_file_skipped_witness:
  "recursiveFindHtml example_disk (siteDir example_window)
     = [QFileInfo [''site'', ''sub''] ''c.html'', QFileInfo [''site'', ''sub''] ''z.htm'']
       @ QFileInfo [''site''] ''A.HTM'' # [QFileInfo [''site''] ''b.html'']
   \<and> open_read example_disk [''site'', ''A.HTM''] = None
   \<and> map userRole (resultsList (onSearch example_disk [] example_window))
       = [[''site'', ''sub'', ''z.htm''], [''site'', ''b.html'']]
   \<and> statusBar (onSearch example_disk [] example_window) = ''Search complete''"
proof -
  have h1: "trimmed (searchEdit example_window) = ''hello''" by code_simp
  have h2: "''hello'' \<noteq> []" by simp
  have h3: "\<not> startsWith (scopeCombo example_window) ''Current''" by code_simp
  have h4: "recursiveFindHtml example_disk (siteDir example_window)
     = [QFileInfo [''site'', ''sub''] ''c.html'', QFileInfo [''site'', ''sub''] ''z.htm'']
       @ QFileInfo [''site''] ''A.HTM'' # [QFileInfo [''site''] ''b.html'']"
    by code_simp
  have h5: "open_read example_disk (absoluteFilePath (QFileInfo [''site''] ''A.HTM'')) = None"
    by code_simp
  have r: "searchFiles example_disk ''hello''
             ([QFileInfo [''site'', ''sub''] ''c.html'', QFileInfo [''site'', ''sub''] ''z.htm'']
               @ [QFileInfo [''site''] ''b.html'']) ([], False)
           = ([newItem (QFileInfo [''site'', ''sub''] ''z.htm''), newItem (QFileInfo [''site''] ''b.html'')], True)"
    by code_simp
  from unreadable_file_skipped [OF h1 h2 h3 h4 h5, of "[]"] r
  have "onSearch example_disk [] example_window =
          example_window\<lparr>resultsList := [newItem (QFileInfo [''site'', ''sub''] ''z.htm''), newItem (QFileInfo [''site''] ''b.html'')],
                         statusBar := ''Search complete''\<rparr>"
    by simp
  then show ?thesis using h4 h5 by (simp add: userRole_newItem absoluteFilePath_def)
qed


text \<open>
  Claim C8. In the folder scope, the results list holds one item per matching file, in
  the order of the finder's output; an item is the pair of a label (file name, dash,
  path) and the absolute path of the file; activating an item asks the view to load
  exactly the path stored in it.
\<close>

theorem folder_results_pairs_in_finder_order:
  assumes "trimmed (searchEdit w) = term" and "term \<noteq> []"
    and "\<not> startsWith (scopeCombo w) ''Current''"
  shows "resultsList (onSearch disk page w)
           = map newItem (filter (fileMatches disk term) (recursiveFindHtml disk (siteDir w)))
       \<and> (\<forall>fi. userRole (newItem fi) = absoluteFilePath fi
              \<and> itemText (newItem fi)
                  = fileName fi @ [CHR 0x20, CHR 0xE2, CHR 0x80, CHR 0x94, CHR 0x20] @ pathString (absoluteFilePath fi))
       \<and> subseq (map userRole (resultsList (onSearch disk page w)))
                 (map absoluteFilePath (recursiveFindHtml disk (siteDir w)))
       \<and> (\<forall>item \<in> set (resultsList (onSearch disk page w)). \<forall>v.
              onResultActivated item v = loadLocal (userRole item) v
              \<and> webview (onResultActivated item v) = Some (userRole item))"
proof -
  let ?R = "recursiveFindHtml disk (siteDir w)"
  have res: "resultsList (onSearch disk page w) = map newItem (filter (fileMatches disk term) ?R)"
    by (simp add: onSearch_folder [OF assms])
  have "map userRole (resultsList (onSearch disk page w)) = map absoluteFilePath (filter (fileMatches disk term) ?R)"
    by (simp add: res userRole_newItem o_def)
  then have sub: "subseq (map userRole (resultsList (onSearch disk page w))) (map absoluteFilePath ?R)"
    by (simp add: subseq_map)
  have act: "onResultActivated item v = loadLocal (userRole item) v
              \<and> webview (onResultActivated item v) = Some (userRole item)"
    if "item \<in> set (resultsList (onSearch disk page w))" for item v
  proof -
    from that obtain fi where "item = newItem fi" by (auto simp: res)
    then have "userRole item \<noteq> []" by (simp add: userRole_newItem absoluteFilePath_def)
    then show ?thesis by (simp add: onResultActivated_def loadLocal_def Let_def)
  qed
  have lab: "userRole (newItem fi) = absoluteFilePath fi
              \<and> itemText (newItem fi)
                  = fileName fi @ [CHR 0x20, CHR 0xE2, CHR 0x80, CHR 0x94, CHR 0x20] @ pathString (absoluteFilePath fi)" for fi
    by (simp add: newItem_def)
  from res lab sub act show ?thesis by blast
qed

theorem folder_results_pairs_in_finder_order_witness:
  "map absoluteFilePath (recursiveFindHtml example_disk [''site''])
     = [[''site'', ''sub'', ''c.html''], [''site'', ''sub'', ''z.htm''], [''site'', ''A.HTM''], [''site'', ''b.html'']]
   \<and> map userRole (resultsList (onSearch example_disk [] example_window))
     = [[''site'', ''sub'', ''z.htm''], [''site'', ''b.html'']]
   \<and> list_all (\<lambda>item. webview (onResultActivated item example_window) = Some (userRole item))
        (resultsList (onSearch example_disk [] example_window))"
proof -
  have h1: "trimmed (searchEdit example_window) = ''hello''" by code_simp
  have h2: "''hello'' \<noteq> []" by simp
  have h3: "\<not> startsWith (scopeCombo example_window) ''Current''" by code_simp
  have a: "map absoluteFilePath (recursiveFindHtml example_disk [''site''])
     = [[''site'', ''sub'', ''c.html''], [''site'', ''sub'', ''z.htm''], [''site'', ''A.HTM''], [''site'', ''b.html'']]"
    by code_simp
  have b: "map userRole (resultsList (onSearch example_disk [] example_window))
     = [[''site'', ''sub'', ''z.htm''], [''site'', ''b.html'']]"
    by code_simp
  from folder_results_pairs_in_finder_order [OF h1 h2 h3, of example_disk "[]"]
  have "\<forall>item \<in> set (resultsList (onSearch example_disk [] example_window)).
          webview (onResultActivated item example_window) = Some (userRole item)"
    by blast
  with a b show ?thesis by (simp add: list_all_iff)
qed

text \<open>
  Claim C10. In the scope \<open>Current page\<close> the page is searched with
  \<open>FindCaseSensitively\<close>: the status reports a match exactly when the term occurs in
  the text of the page with its letter case. So there are a term and a page text that
  differ only in letter case for which the current-page search reports no match, while
  the folder search over a file with the same text lists the file.
\<close>

theorem current_page_search_case_sensitive:
  "(\<forall>disk page w.
      trimmed (searchEdit w) \<noteq> [] \<and> startsWith (scopeCombo w) ''Current'' \<longrightarrow>
      statusBar (onSearch disk page w)
        = (if sublist (trimmed (searchEdit w)) page
           then ''Found on page: '' @ trimmed (searchEdit w)
           else noMatchesOnPage (trimmed (searchEdit w))))
   \<and> (\<exists>disk page w fi.
        map toLower (trimmed (searchEdit w)) = map toLower page
        \<and> fi \<in> set (recursiveFindHtml disk (siteDir w))
        \<and> open_read disk (absoluteFilePath fi) = Some page
        \<and> statusBar (onSearch disk page (w\<lparr>scopeCombo := ''Current page''\<rparr>))
            = noMatchesOnPage (trimmed (searchEdit w))
        \<and> absoluteFilePath fi
            \<in> set (map userRole (resultsList (onSearch disk page (w\<lparr>scopeCombo := ''All subpages (folder)''\<rparr>)))))"
proof
  show "\<forall>disk page w.
      trimmed (searchEdit w) \<noteq> [] \<and> startsWith (scopeCombo w) ''Current'' \<longrightarrow>
      statusBar (onSearch disk page w)
        = (if sublist (trimmed (searchEdit w)) page
           then ''Found on page: '' @ trimmed (searchEdit w)
           else noMatchesOnPage (trimmed (searchEdit w)))"
    by (simp add: onSearch_def Let_def findText_def)
next
  have 1: "map toLower (trimmed (searchEdit case_window)) = map toLower ''Hello''" by code_simp
  have 2: "QFileInfo [''site''] ''index.html'' \<in> set (recursiveFindHtml case_disk (siteDir case_window))"
    by code_simp
  have 3: "open_read case_disk (absoluteFilePath (QFileInfo [''site''] ''index.html'')) = Some ''Hello''"
    by code_simp
  have 4: "statusBar (onSearch case_disk ''Hello'' (case_window\<lparr>scopeCombo := ''Current page''\<rparr>))
            = noMatchesOnPage (trimmed (searchEdit case_window))"
    by code_simp
  have 5: "absoluteFilePath (QFileInfo [''site''] ''index.html'')
            \<in> set (map userRole (resultsList
                 (onSearch case_disk ''Hello'' (case_window\<lparr>scopeCombo := ''All subpages (folder)''\<rparr>))))"
    by code_simp
  from 1 2 3 4 5 show "\<exists>disk page w fi.
        map toLower (trimmed (searchEdit w)) = map toLower page
        \<and> fi \<in> set (recursiveFindHtml disk (siteDir w))
        \<and> open_read disk (absoluteFilePath fi) = Some page
        \<and> statusBar (onSearch disk page (w\<lparr>scopeCombo := ''Current page''\<rparr>))
            = noMatchesOnPage (trimmed (searchEdit w))
        \<and> absoluteFilePath fi
            \<in> set (map userRole (resultsList (onSearch disk page (w\<lparr>scopeCombo := ''All subpages (folder)''\<rparr>))))"
    by blast
qed

theorem current_page_search_case_sensitive_witness:
  "trimmed (searchEdit case_window) = ''hello''
   \<and> startsWith (scopeCombo case_window) ''Current''
   \<and> \<not> sublist ''hello'' ''Hello''
   \<and> statusBar (onSearch case_disk ''Hello'' case_window) = noMatchesOnPage ''hello''
   \<and> statusBar (onSearch case_disk ''hello'' case_window) = ''Found on page: hello''"
proof -
  have h1: "trimmed (searchEdit case_window) = ''hello''" by code_simp
  have h2: "startsWith (scopeCombo case_window) ''Current''" by code_simp
  have h3: "\<not> sublist ''hello'' ''Hello''" by code_simp
  have h4: "sublist ''hello'' ''hello''" by simp
  from current_page_search_case_sensitive
  have "\<forall>page. statusBar (onSearch case_disk page case_window)
        = (if sublist ''hello'' page then ''Found on page: '' @ ''hello'' else noMatchesOnPage ''hello'')"
    using h1 h2 by simp
  then show ?thesis using h1 h2 h3 h4 by simp
qed

section \<open>Properties of the finder\<close>

text \<open>
  Claim C6. When the directory passed to the finder does not exist, the finder returns
  the empty list; so it does for a directory that cannot be listed, and the traversal
  of a directory is the traversal of its listable subdirectories followed by its own
  files: a subdirectory that cannot be listed adds nothing and stops nothing.
\<close>

theorem finder_missing_or_unreadable_directory:
  "(resolve disk dirPath = None \<longrightarrow> recursiveFindHtml disk dirPath = [])
   \<and> (unreadableDir disk dirPath \<longrightarrow> recursiveFindHtml disk dirPath = [])
   \<and> recursiveFindHtml disk dirPath
       = concat (map (\<lambda>fi. recursiveFindHtml disk (absoluteFilePath fi))
                  (filter (\<lambda>fi. \<not> unreadableDir disk (absoluteFilePath fi))
                     (entryInfoList disk dirPath [] {Dirs, NoDotAndDotDot} NoSort)))
         @ entryInfoList disk dirPath [''*.html'', ''*.htm''] {Files, NoSymLinks} Name"
proof -
  have a: "resolve disk dirPath = None \<longrightarrow> recursiveFindHtml disk dirPath = []"
    by (simp add: readdir_Nil readdir_def)
  have b: "unreadableDir disk dirPath \<longrightarrow> recursiveFindHtml disk dirPath = []"
    by (simp add: readdir_Nil unreadableDir_readdir)
  have "concat (map (\<lambda>fi. recursiveFindHtml disk (absoluteFilePath fi))
                  (filter (\<lambda>fi. \<not> unreadableDir disk (absoluteFilePath fi))
                     (entryInfoList disk dirPath [] {Dirs, NoDotAndDotDot} NoSort)))
        = concat (map (\<lambda>fi. recursiveFindHtml disk (absoluteFilePath fi))
                     (entryInfoList disk dirPath [] {Dirs, NoDotAndDotDot} NoSort))"
    by (rule concat_map_filter_Nil) (simp add: readdir_Nil unreadableDir_readdir)
  then have c: "recursiveFindHtml disk dirPath
       = concat (map (\<lambda>fi. recursiveFindHtml disk (absoluteFilePath fi))
                  (filter (\<lambda>fi. \<not> unreadableDir disk (absoluteFilePath fi))
                     (entryInfoList disk dirPath [] {Dirs, NoDotAndDotDot} NoSort)))
         @ entryInfoList disk dirPath [''*.html'', ''*.htm''] {Files, NoSymLinks} Name"
    by (simp add: recursiveFindHtml.simps [of disk dirPath])
  from a b c show ?thesis by blast
qed

theorem finder_missing_or_unreadable_directory_witness:
  "resolve example_disk [''nowhere''] = None
   \<and> recursiveFindHtml example_disk [''nowhere''] = []
   \<and> unreadableDir example_disk [''site'', ''locked'']
   \<and> recursiveFindHtml example_disk [''site'', ''locked''] = []
   \<and> recursiveFindHtml example_disk [''site'']
       = recursiveFindHtml example_disk [''site'', ''sub'']
         @ [QFileInfo [''site''] ''A.HTM'', QFileInfo [''site''] ''b.html'']"
proof -
  have h1: "resolve example_disk [''nowhere''] = None" by code_simp
  have h2: "unreadableDir example_disk [''site'', ''locked'']" by code_simp
  have h3: "filter (\<lambda>fi. \<not> unreadableDir example_disk (absoluteFilePath fi))
              (entryInfoList example_disk [''site''] [] {Dirs, NoDotAndDotDot} NoSort)
            = [QFileInfo [''site''] ''sub'']"
    by code_simp
  have h4: "entryInfoList example_disk [''site''] [''*.html'', ''*.htm''] {Files, NoSymLinks} Name
            = [QFileInfo [''site''] ''A.HTM'', QFileInfo [''site''] ''b.html'']"
    by code_simp
  from finder_missing_or_unreadable_directory [of example_disk "[''nowhere'']"] h1
  have a: "recursiveFindHtml example_disk [''nowhere''] = []" by blast
  from finder_missing_or_unreadable_directory [of example_disk "[''site'', ''locked'']"] h2
  have b: "recursiveFindHtml example_disk [''site'', ''locked''] = []" by blast
  from finder_missing_or_unreadable_directory [of example_disk "[''site'']"]
  have "recursiveFindHtml example_disk [''site'']
       = concat (map (\<lambda>fi. recursiveFindHtml example_disk (absoluteFilePath fi))
                  (filter (\<lambda>fi. \<not> unreadableDir example_disk (absoluteFilePath fi))
                     (entryInfoList example_disk [''site''] [] {Dirs, NoDotAndDotDot} NoSort)))
         @ entryInfoList example_disk [''site''] [''*.html'', ''*.htm''] {Files, NoSymLinks} Name"
    by blast
  then have c: "recursiveFindHtml example_disk [''site'']
       = recursiveFindHtml example_disk [''site'', ''sub'']
         @ [QFileInfo [''site''] ''A.HTM'', QFileInfo [''site''] ''b.html'']"
    unfolding h3 h4 by (simp add: absoluteFilePath_def)
  from h1 h2 a b c show ?thesis by blast
qed

text \<open>
  Claim C4 (symbolic links are excluded) against the code: the finder lists files
  with \<open>NoSymLinks\<close> but subdirectories without it. On \<open>linked_disk\<close> the link
  \<open>ln.html\<close> is left out, and the file inside the linked directory \<open>shared\<close> is
  returned.
\<close>

theorem finder_follows_linked_directory:
  "map absoluteFilePath (recursiveFindHtml linked_disk [''site'']) = [[''site'', ''shared'', ''a.html'']]
   \<and> map_option isSymLink (resolve linked_disk [''site'', ''shared'']) = Some True
   \<and> map_option isSymLink (resolve linked_disk [''site'', ''ln.html'']) = Some True"
  by code_simp


subsection \<open>Which files the finder returns\<close>

lemma wildcardMatch_literal:
  "CHR ''*'' \<notin> set p \<Longrightarrow> wildcardMatch p s \<longleftrightarrow> map toLower p = map toLower s"
  by (induction p s rule: wildcardMatch.induct) auto

lemma wildcardMatch_star:
  "wildcardMatch (CHR ''*'' # p) s \<longleftrightarrow> (\<exists>pre post. s = pre @ post \<and> wildcardMatch p post)"
proof (induction s)
  case Nil
  then show ?case by (cases p) auto
next
  case (Cons c cs)
  show ?case
  proof
    assume "wildcardMatch (CHR ''*'' # p) (c # cs)"
    then consider "wildcardMatch p (c # cs)" | "wildcardMatch (CHR ''*'' # p) cs" by auto
    then show "\<exists>pre post. c # cs = pre @ post \<and> wildcardMatch p post"
    proof cases
      case 1
      then have "c # cs = [] @ (c # cs) \<and> wildcardMatch p (c # cs)" by simp
      then show ?thesis by blast
    next
      case 2
      with Cons.IH obtain pre post where "cs = pre @ post" "wildcardMatch p post" by blast
      then have "c # cs = (c # pre) @ post \<and> wildcardMatch p post" by simp
      then show ?thesis by blast
    qed
  next
    assume "\<exists>pre post. c # cs = pre @ post \<and> wildcardMatch p post"
    then obtain pre post where pp: "c # cs = pre @ post" "wildcardMatch p post" by blast
    show "wildcardMatch (CHR ''*'' # p) (c # cs)"
    proof (cases pre)
      case Nil
      with pp have "wildcardMatch p (c # cs)" by simp
      then show ?thesis by simp
    next
      case (Cons a pre')
      with pp have "cs = pre' @ post" by simp
      with pp(2) Cons.IH have "wildcardMatch (CHR ''*'' # p) cs" by blast
      then show ?thesis by simp
    qed
  qed
qed

lemma wildcardMatch_star_literal:
  assumes "CHR ''*'' \<notin> set p"
  shows "wildcardMatch (CHR ''*'' # p) s \<longleftrightarrow> suffix (map toLower p) (map toLower s)"
proof -
  have "wildcardMatch (CHR ''*'' # p) s \<longleftrightarrow> (\<exists>pre post. s = pre @ post \<and> map toLower p = map toLower post)"
    using assms by (simp add: wildcardMatch_star wildcardMatch_literal)
  also have "\<dots> \<longleftrightarrow> suffix (map toLower p) (map toLower s)"
  proof
    assume "\<exists>pre post. s = pre @ post \<and> map toLower p = map toLower post"
    then show "suffix (map toLower p) (map toLower s)" by (auto simp: suffix_def)
  next
    assume "suffix (map toLower p) (map toLower s)"
    then obtain zs where "map toLower s = zs @ map toLower p" by (auto simp: suffix_def)
    then obtain pre post where "s = pre @ post" "map toLower post = map toLower p"
      by (auto simp: map_eq_append_conv)
    then show "\<exists>pre post. s = pre @ post \<and> map toLower p = map toLower post" by metis
  qed
  finally show ?thesis .
qed

lemma toLower_html:
  "toLower CHR ''.'' = CHR ''.''" "toLower CHR ''h'' = CHR ''h''" "toLower CHR ''t'' = CHR ''t''"
  "toLower CHR ''m'' = CHR ''m''" "toLower CHR ''l'' = CHR ''l''"
  by code_simp+

lemma nameFilters_html:
  "list_ex (\<lambda>p. wildcardMatch p n) [''*.html'', ''*.htm''] \<longleftrightarrow> htmlName n"
  using wildcardMatch_star_literal [of "''.html''" n] wildcardMatch_star_literal [of "''.htm''" n]
  by (simp add: htmlName_def toLower_html)

lemma isFile_not_isDir: "isFile e \<longleftrightarrow> \<not> isDir e"
  by (cases e) auto

lemma matchesFilters_dirs:
  "matchesFilters [] {Dirs, NoDotAndDotDot} e \<longleftrightarrow> isDir e \<and> \<not> isHidden e"
  by (auto simp: matchesFilters_def isFile_not_isDir)

lemma matchesFilters_files:
  "matchesFilters [''*.html'', ''*.htm''] {Files, NoSymLinks} e
     \<longleftrightarrow> isFile e \<and> \<not> isSymLink e \<and> \<not> isHidden e \<and> htmlName (name e)"
  using nameFilters_html [of "name e"] by (auto simp: matchesFilters_def isFile_not_isDir)

lemma set_entryInfoList:
  "set (entryInfoList disk p nf fl so)
     = (\<lambda>e. QFileInfo p (name e)) ` {e \<in> set (readdir disk p). matchesFilters nf fl e}"
  by (auto simp: entryInfoList_def set_sortFileList)

lemma distinct_sortFileList: "distinct (sortFileList so fis) = distinct fis"
  by (cases so) simp_all

lemma distinct_entryInfoList:
  assumes "distinct (map name (readdir disk p))"
  shows "distinct (entryInfoList disk p nf fl so)"
proof -
  have "distinct (map name (filter (matchesFilters nf fl) (readdir disk p)))"
    using assms by (rule distinct_map_filter)
  then have "distinct (map (\<lambda>e. QFileInfo p (name e)) (filter (matchesFilters nf fl) (readdir disk p)))"
    by (simp add: distinct_map inj_on_def)
  then show ?thesis by (simp add: entryInfoList_def distinct_sortFileList)
qed

lemma find_distinct_names:
  assumes "distinct (map name es)"
  shows "find (\<lambda>c. name c = m) es = Some c \<longleftrightarrow> c \<in> set es \<and> name c = m"
  using assms by (induction es) auto

lemma resolve_child:
  assumes "resolve disk p = Some d" "distinct (map name (children d))" "e \<in> set (children d)"
  shows "resolve disk (p @ [name e]) = Some e"
  using assms by (simp add: resolve_append find_distinct_names [THEN iffD2])


lemma reachesHtml_File: "\<not> reachesHtml (File n l c) ns"
  by (cases ns) auto

lemma reachesHtml_Dir:
  assumes "distinct (map name es)"
  shows "reachesHtml (Dir n l r es) (m # ms) \<longleftrightarrow>
           r \<and> (\<exists>c \<in> set es. name c = m \<and>
                  (if ms = [] then visibleHtmlFile c else visibleSubdir c \<and> reachesHtml c ms))"
proof (cases "find (\<lambda>c. name c = m) es")
  case None
  then have "\<not> (\<exists>c \<in> set es. name c = m)" by (auto simp: find_None_iff)
  moreover from None have "\<not> reachesHtml (Dir n l r es) (m # ms)" by simp
  ultimately show ?thesis by blast
next
  case (Some c)
  then have c: "c \<in> set es" "name c = m" using find_distinct_names [OF assms] by blast+
  have uniq: "c' = c" if "c' \<in> set es" "name c' = m" for c'
  proof -
    from that have "find (\<lambda>c. name c = m) es = Some c'" using find_distinct_names [OF assms] by blast
    with Some show ?thesis by simp
  qed
  have L: "reachesHtml (Dir n l r es) (m # ms) \<longleftrightarrow>
        r \<and> (if ms = [] then visibleHtmlFile c else visibleSubdir c \<and> reachesHtml c ms)"
    using Some by simp
  have U: "(\<exists>c' \<in> set es. name c' = m \<and> Q c') \<longleftrightarrow> Q c" for Q
    using c uniq by blast
  show ?thesis unfolding L by (simp only: U)
qed

lemma absolutePath_prefix:
  "fi \<in> set (recursiveFindHtml disk p) \<Longrightarrow> prefix p (absolutePath fi)"
proof (induction disk p arbitrary: fi rule: recursiveFindHtml.induct)
  case (1 disk dirPath)
  from "1.prems" consider
      (sub) di where "di \<in> set (entryInfoList disk dirPath [] {Dirs, NoDotAndDotDot} NoSort)"
                     "fi \<in> set (recursiveFindHtml disk (absoluteFilePath di))"
    | (own) "fi \<in> set (entryInfoList disk dirPath [''*.html'', ''*.htm''] {Files, NoSymLinks} Name)"
    by (subst (asm) recursiveFindHtml.simps) auto
  then show ?case
  proof cases
    case sub
    from "1.IH" [OF sub] have "prefix (absoluteFilePath di) (absolutePath fi)" .
    moreover from sub(1) have "absolutePath di = dirPath" by (auto simp: set_entryInfoList)
    ultimately show ?thesis by (auto simp: absoluteFilePath_def dest: append_prefixD)
  next
    case own
    then show ?thesis by (auto simp: set_entryInfoList)
  qed
qed

lemma distinct_concat_map:
  assumes "distinct xs"
    and "\<And>x. x \<in> set xs \<Longrightarrow> distinct (f x)"
    and "\<And>x y. x \<in> set xs \<Longrightarrow> y \<in> set xs \<Longrightarrow> x \<noteq> y \<Longrightarrow> set (f x) \<inter> set (f y) = {}"
  shows "distinct (concat (map f xs))"
  using assms
proof (induction xs)
  case Nil
  then show ?case by simp
next
  case (Cons x xs)
  have "set (f x) \<inter> set (f y) = {}" if "y \<in> set xs" for y
    using Cons.prems(1) that by (intro Cons.prems(3)) auto
  then have "set (f x) \<inter> (\<Union>y \<in> set xs. set (f y)) = {}" by blast
  moreover have "distinct (concat (map f xs))"
    using Cons.prems by (intro Cons.IH) auto
  ultimately show ?case using Cons.prems(2) [of x] by simp
qed

lemma inj_absoluteFilePath: "inj absoluteFilePath"
proof (rule injI)
  fix a b assume "absoluteFilePath a = absoluteFilePath b"
  then show "a = b" by (cases a; cases b) (simp add: absoluteFilePath_def)
qed

lemma finder_paths:
  assumes "resolve disk p = Some d" "distinct_names d" "no_linked_dirs d"
  shows "distinct (recursiveFindHtml disk p)
       \<and> absoluteFilePath ` set (recursiveFindHtml disk p) = {p @ ns | ns. reachesHtml d ns}"
  using assms
proof (induction d arbitrary: p)
  case (File n l c)
  then have "recursiveFindHtml disk p = []" by (simp add: readdir_Nil readdir_def)
  then show ?case by (simp add: reachesHtml_File)
next
  case (Dir n l r es)
  show ?case
  proof (cases r)
    case False
    with Dir.prems have "recursiveFindHtml disk p = []" by (simp add: readdir_Nil readdir_def)
    moreover have "\<not> reachesHtml (Dir n l r es) ns" for ns using False by (cases ns) auto
    ultimately show ?thesis by simp
  next
    case True
    let ?dirs = "entryInfoList disk p [] {Dirs, NoDotAndDotDot} NoSort"
    let ?files = "entryInfoList disk p [''*.html'', ''*.htm''] {Files, NoSymLinks} Name"
    let ?g = "\<lambda>fi. recursiveFindHtml disk (absoluteFilePath fi)"
    have names: "distinct (map name es)" using Dir.prems(2) by simp
    have rd: "readdir disk p = es" using Dir.prems(1) True by (simp add: readdir_def)
    have R: "recursiveFindHtml disk p = concat (map ?g ?dirs) @ ?files"
      by (rule recursiveFindHtml.simps)
    have sdirs: "set ?dirs = (\<lambda>e. QFileInfo p (name e)) ` {e \<in> set es. isDir e \<and> \<not> isHidden e}"
      by (simp add: set_entryInfoList rd matchesFilters_dirs)
    have sfiles: "set ?files = (\<lambda>e. QFileInfo p (name e)) ` {e \<in> set es. visibleHtmlFile e}"
      by (simp add: set_entryInfoList rd matchesFilters_files visibleHtmlFile_def)
    have child: "resolve disk (p @ [name e]) = Some e" if "e \<in> set es" for e
      using resolve_child [OF Dir.prems(1)] names that by simp
    have ih: "distinct (recursiveFindHtml disk (p @ [name e]))
              \<and> absoluteFilePath ` set (recursiveFindHtml disk (p @ [name e]))
                  = {(p @ [name e]) @ ns | ns. reachesHtml e ns}"
      if "e \<in> set es" for e
      using that Dir.prems(2,3) by (intro Dir.IH child) auto
    have sub: "visibleSubdir e \<longleftrightarrow> isDir e \<and> \<not> isHidden e" if "e \<in> set es" for e
      using that Dir.prems(3) by (auto simp: visibleSubdir_def)
    \<comment> \<open>the paths\<close>
    have "absoluteFilePath ` set (recursiveFindHtml disk p) = {p @ ns | ns. reachesHtml (Dir n l r es) ns}"
      (is "?L = ?Rhs")
    proof (intro set_eqI iffI)
      fix q assume "q \<in> ?L"
      then obtain fi where fi: "fi \<in> set (recursiveFindHtml disk p)" "q = absoluteFilePath fi" by blast
      from fi(1) consider
          (deep) di where "di \<in> set ?dirs" "fi \<in> set (?g di)"
        | (own) "fi \<in> set ?files"
        unfolding R by auto
      then show "q \<in> ?Rhs"
      proof cases
        case deep
        from deep(1) obtain e where e: "e \<in> set es" "isDir e" "\<not> isHidden e" "di = QFileInfo p (name e)"
          unfolding sdirs by blast
        then have "q \<in> absoluteFilePath ` set (recursiveFindHtml disk (p @ [name e]))"
          using deep(2) fi(2) by (simp add: absoluteFilePath_def)
        also have "\<dots> = {(p @ [name e]) @ ns | ns. reachesHtml e ns}"
          using ih [OF e(1)] by (rule conjunct2)
        finally obtain ns where ns: "q = (p @ [name e]) @ ns" "reachesHtml e ns"
          by blast
        then have "ns \<noteq> []" by auto
        moreover have "visibleSubdir e" using sub [OF e(1)] e(2,3) by simp
        ultimately have "reachesHtml (Dir n l r es) (name e # ns)"
          unfolding reachesHtml_Dir [OF names] using e(1) ns(2) True by auto
        moreover have "q = p @ name e # ns" using ns(1) by simp
        ultimately show ?thesis by blast
      next
        case own
        then obtain e where e: "e \<in> set es" "visibleHtmlFile e" "fi = QFileInfo p (name e)"
          unfolding sfiles by blast
        then have "reachesHtml (Dir n l r es) [name e]"
          unfolding reachesHtml_Dir [OF names] using True by auto
        moreover have "q = p @ [name e]" using e(3) fi(2) by (simp add: absoluteFilePath_def)
        ultimately show ?thesis by blast
      qed
    next
      fix q assume "q \<in> ?Rhs"
      then obtain ns where ns: "q = p @ ns" "reachesHtml (Dir n l r es) ns" by blast
      then obtain m ms where mm: "ns = m # ms" by (cases ns) auto
      from ns(2) have "\<exists>c \<in> set es. name c = m \<and>
                  (if ms = [] then visibleHtmlFile c else visibleSubdir c \<and> reachesHtml c ms)"
        unfolding mm reachesHtml_Dir [OF names] by (rule conjunct2)
      then obtain c where c: "c \<in> set es" "name c = m"
          "if ms = [] then visibleHtmlFile c else visibleSubdir c \<and> reachesHtml c ms"
        by blast
      show "q \<in> ?L"
      proof (cases "ms = []")
        case True
        with c have "c \<in> {e \<in> set es. visibleHtmlFile e}" by simp
        then have "QFileInfo p (name c) \<in> set ?files" unfolding sfiles by (rule imageI)
        then have "QFileInfo p m \<in> set (recursiveFindHtml disk p)" unfolding R using c(2) by simp
        moreover have "q = absoluteFilePath (QFileInfo p m)"
          using ns(1) mm True by (simp add: absoluteFilePath_def)
        ultimately show ?thesis by blast
      next
        case False
        with c have vs: "visibleSubdir c" "reachesHtml c ms" by auto
        then have "c \<in> {e \<in> set es. isDir e \<and> \<not> isHidden e}"
          using c(1) sub [OF c(1)] by simp
        then have di: "QFileInfo p (name c) \<in> set ?dirs" unfolding sdirs by (rule imageI)
        have "q = (p @ [name c]) @ ms" using ns(1) mm c(2) by simp
        then have "q \<in> {(p @ [name c]) @ ns | ns. reachesHtml c ns}" using vs(2) by blast
        also have "\<dots> = absoluteFilePath ` set (recursiveFindHtml disk (p @ [name c]))"
          using ih [OF c(1)] by simp
        finally obtain fi where fi: "fi \<in> set (recursiveFindHtml disk (p @ [name c]))" "q = absoluteFilePath fi"
          by blast
        from fi(1) have "fi \<in> set (?g (QFileInfo p (name c)))" by (simp add: absoluteFilePath_def)
        with di have "fi \<in> set (concat (map ?g ?dirs))" by auto
        then have "fi \<in> set (recursiveFindHtml disk p)" unfolding R by simp
        with fi(2) show ?thesis by blast
      qed
    qed
    \<comment> \<open>no path twice\<close>
    moreover have "distinct (recursiveFindHtml disk p)"
    proof -
      have d1: "distinct ?dirs" and d2: "distinct ?files"
        using names by (simp_all add: distinct_entryInfoList rd)
      have g1: "distinct (?g di)" if "di \<in> set ?dirs" for di
        using that ih unfolding sdirs by (auto simp: absoluteFilePath_def)
      have pre: "prefix (p @ [fileName di]) (absolutePath x)"
        if "di \<in> set ?dirs" "x \<in> set (?g di)" for di x
      proof -
        from that(1) have "absolutePath di = p" unfolding sdirs by auto
        with absolutePath_prefix [OF that(2)] show ?thesis by (simp add: absoluteFilePath_def)
      qed
      have g2: "set (?g di) \<inter> set (?g dj) = {}"
        if "di \<in> set ?dirs" "dj \<in> set ?dirs" "di \<noteq> dj" for di dj
      proof -
        from that have ne: "fileName di \<noteq> fileName dj"
          unfolding sdirs by auto
        show ?thesis
        proof (rule ccontr)
          assume "set (?g di) \<inter> set (?g dj) \<noteq> {}"
          then obtain x where "x \<in> set (?g di)" "x \<in> set (?g dj)" by blast
          then have "prefix (p @ [fileName di]) (absolutePath x)" "prefix (p @ [fileName dj]) (absolutePath x)"
            using pre that by blast+
          then have "fileName di = fileName dj"
            by (auto simp: prefix_def)
          with ne show False by simp
        qed
      qed
      have g3: "set (concat (map ?g ?dirs)) \<inter> set ?files = {}"
      proof (rule ccontr)
        assume "set (concat (map ?g ?dirs)) \<inter> set ?files \<noteq> {}"
        then obtain x di where x: "di \<in> set ?dirs" "x \<in> set (?g di)" "x \<in> set ?files" by auto
        from x(3) have "absolutePath x = p" unfolding sfiles by auto
        with pre [OF x(1,2)] show False by (simp add: prefix_def)
      qed
      from distinct_concat_map [of ?dirs ?g, OF d1 g1 g2] d2 g3 show ?thesis
        unfolding R by simp
    qed
    ultimately show ?thesis by simp
  qed
qed


text \<open>
  Claim C1 (a tree with N files whose names end in \<open>.html\<close> or \<open>.htm\<close> gives exactly
  N paths) fails on \<open>hidden_disk\<close>: the site holds three such files, none of them a
  symbolic link and every directory listable, and the finder returns one path. The
  hidden file and the file in the hidden directory are not listed.
\<close>

theorem finder_count_counterexample:
  "map_option (spec_html_files []) (resolve hidden_disk [''site''])
     = Some [[''site'', ''index.html''], [''site'', ''.draft.html''], [''site'', ''.old'', ''ch1.html'']]
   \<and> map absoluteFilePath (recursiveFindHtml hidden_disk [''site'']) = [[''site'', ''index.html'']]"
  by code_simp

text \<open>
  Claim C1, amended. For a directory whose tree holds no two entries of one name in a
  directory and no symbolic link to a directory, the finder returns exactly the paths
  of the files that are not hidden, are not symbolic links, have a name ending in
  \<open>.html\<close> or \<open>.htm\<close> (letter case ignored) and lie in the directory or below it
  through listable directories that are not hidden. Each such path is returned once:
  with N such files the finder returns N paths, whatever the depth.
\<close>

theorem finder_returns_each_visible_html_file_once:
  assumes "resolve disk dirPath = Some d" and "distinct_names d" and "no_linked_dirs d"
  shows "distinct (map absoluteFilePath (recursiveFindHtml disk dirPath))
       \<and> set (map absoluteFilePath (recursiveFindHtml disk dirPath)) = {dirPath @ ns | ns. reachesHtml d ns}
       \<and> length (recursiveFindHtml disk dirPath) = card {ns. reachesHtml d ns}"
proof -
  let ?R = "recursiveFindHtml disk dirPath"
  from finder_paths [OF assms]
  have d: "distinct ?R" and s: "absoluteFilePath ` set ?R = {dirPath @ ns | ns. reachesHtml d ns}"
    by blast+
  have dm: "distinct (map absoluteFilePath ?R)"
    using d inj_absoluteFilePath by (simp add: distinct_map inj_on_def inj_def)
  have "length ?R = card (set (map absoluteFilePath ?R))"
    using dm distinct_card [of "map absoluteFilePath ?R"] by simp
  also have "set (map absoluteFilePath ?R) = (\<lambda>ns. dirPath @ ns) ` {ns. reachesHtml d ns}"
    using s by auto
  also have "card \<dots> = card {ns. reachesHtml d ns}"
    by (rule card_image) (simp add: inj_on_def)
  finally have "length ?R = card {ns. reachesHtml d ns}" .
  with dm s show ?thesis by simp
qed

theorem finder_returns_each_visible_html_file_once_witness:
  "resolve example_disk [''site''] = Some example_site
   \<and> distinct_names example_site \<and> no_linked_dirs example_site
   \<and> card {ns. reachesHtml example_site ns} = 4
   \<and> {[''site''] @ ns | ns. reachesHtml example_site ns}
       = {[''site'', ''sub'', ''c.html''], [''site'', ''sub'', ''z.htm''], [''site'', ''A.HTM''], [''site'', ''b.html'']}"
proof -
  have h1: "resolve example_disk [''site''] = Some example_site" by code_simp
  have h2: "distinct_names example_site" by code_simp
  have h3: "no_linked_dirs example_site" by code_simp
  have r: "map absoluteFilePath (recursiveFindHtml example_disk [''site''])
     = [[''site'', ''sub'', ''c.html''], [''site'', ''sub'', ''z.htm''], [''site'', ''A.HTM''], [''site'', ''b.html'']]"
    by code_simp
  then have "length (map absoluteFilePath (recursiveFindHtml example_disk [''site''])) = 4" by simp
  then have l: "length (recursiveFindHtml example_disk [''site'']) = 4" by simp
  from finder_returns_each_visible_html_file_once [OF h1 h2 h3]
  have "card {ns. reachesHtml example_site ns} = 4"
    and "{[''site''] @ ns | ns. reachesHtml example_site ns}
       = set [[''site'', ''sub'', ''c.html''], [''site'', ''sub'', ''z.htm''], [''site'', ''A.HTM''], [''site'', ''b.html'']]"
    unfolding r l by simp_all
  with h1 h2 h3 show ?thesis by simp
qed


subsection \<open>The order of the result\<close>

lemma grouped_by_const: "(\<And>x. x \<in> set xs \<Longrightarrow> key x = c) \<Longrightarrow> grouped_by key xs"
  by (simp add: grouped_by_def)

lemma grouped_by_append:
  assumes "grouped_by key xs" "grouped_by key ys" "key ` set xs \<inter> key ` set ys = {}"
  shows "grouped_by key (xs @ ys)"
  unfolding grouped_by_def
proof (intro allI impI, elim conjE)
  fix i j k
  assume ij: "i < j" and jk: "j < k" and k: "k < length (xs @ ys)"
    and eq: "key ((xs @ ys) ! i) = key ((xs @ ys) ! k)"
  consider (left) "k < length xs" | (right) "length xs \<le> i" | (split) "i < length xs" "length xs \<le> k"
    by linarith
  then show "key ((xs @ ys) ! j) = key ((xs @ ys) ! i)"
  proof cases
    case left
    then have lt: "i < length xs" "j < length xs" using ij jk by simp_all
    then have "key (xs ! i) = key (xs ! k)" using eq left by (simp add: nth_append)
    then have "key (xs ! j) = key (xs ! i)"
      using assms(1) ij jk left unfolding grouped_by_def by blast
    then show ?thesis using lt by (simp add: nth_append)
  next
    case right
    let ?n = "length xs"
    have "i - ?n < j - ?n" "j - ?n < k - ?n" "k - ?n < length ys"
      using right ij jk k by auto
    moreover have "key (ys ! (i - ?n)) = key (ys ! (k - ?n))"
      using right ij jk eq by (simp add: nth_append)
    ultimately have "key (ys ! (j - ?n)) = key (ys ! (i - ?n))"
      using assms(2) unfolding grouped_by_def by blast
    then show ?thesis using right ij by (simp add: nth_append)
  next
    case split
    then have "key ((xs @ ys) ! i) \<in> key ` set xs" by (simp add: nth_append)
    moreover have "key ((xs @ ys) ! k) \<in> key ` set ys"
      using split k by (simp add: nth_append)
    ultimately show ?thesis using eq assms(3) by auto
  qed
qed

lemma grouped_by_concat_map:
  assumes "distinct ds"
    and "\<And>d. d \<in> set ds \<Longrightarrow> grouped_by key (f d)"
    and "\<And>d d'. d \<in> set ds \<Longrightarrow> d' \<in> set ds \<Longrightarrow> d \<noteq> d' \<Longrightarrow> key ` set (f d) \<inter> key ` set (f d') = {}"
  shows "grouped_by key (concat (map f ds))"
  using assms
proof (induction ds)
  case Nil
  then show ?case by (simp add: grouped_by_def)
next
  case (Cons d ds)
  have "key ` set (f d) \<inter> key ` set (f d') = {}" if "d' \<in> set ds" for d'
    using Cons.prems(1) that by (intro Cons.prems(3)) auto
  then have "key ` set (f d) \<inter> key ` set (concat (map f ds)) = {}" by auto
  moreover have "grouped_by key (concat (map f ds))"
    using Cons.prems by (intro Cons.IH) auto
  moreover have "grouped_by key (f d)" using Cons.prems(2) by simp
  ultimately show ?case by (simp add: grouped_by_append)
qed

lemma sorted_wrt_concat_map:
  assumes "\<And>d. d \<in> set ds \<Longrightarrow> sorted_wrt Q (f d)"
    and "\<And>d d' x y. d \<in> set ds \<Longrightarrow> d' \<in> set ds \<Longrightarrow> x \<in> set (f d) \<Longrightarrow> y \<in> set (f d') \<Longrightarrow> d \<noteq> d' \<Longrightarrow> Q x y"
    and "distinct ds"
  shows "sorted_wrt Q (concat (map f ds))"
  using assms
proof (induction ds)
  case Nil
  then show ?case by simp
next
  case (Cons d ds)
  have "Q x y" if "x \<in> set (f d)" "y \<in> set (concat (map f ds))" for x y
  proof -
    from that(2) obtain d' where "d' \<in> set ds" "y \<in> set (f d')" by auto
    moreover from this Cons.prems(3) have "d \<noteq> d'" by auto
    ultimately show ?thesis using that(1) Cons.prems(2) [of d d' x y] by simp
  qed
  moreover have "sorted_wrt Q (concat (map f ds))"
  proof (rule Cons.IH)
    show "sorted_wrt Q (f a)" if "a \<in> set ds" for a using that Cons.prems(1) by simp
    show "Q x y" if "a \<in> set ds" "b \<in> set ds" "x \<in> set (f a)" "y \<in> set (f b)" "a \<noteq> b" for a b x y
      using that Cons.prems(2) [of a b x y] by simp
    show "distinct ds" using Cons.prems(3) by simp
  qed
  moreover have "sorted_wrt Q (f d)" using Cons.prems(1) by simp
  ultimately show ?case by (simp add: sorted_wrt_append)
qed

lemma sorted_names_entryInfoList:
  assumes "distinct (map name (readdir disk p))"
  shows "sorted_wrt (<) (map fileName (entryInfoList disk p nf fl Name))"
proof -
  let ?xs = "map (\<lambda>e. QFileInfo p (name e)) (filter (matchesFilters nf fl) (readdir disk p))"
  have e: "map fileName ?xs = map name (filter (matchesFilters nf fl) (readdir disk p))"
    by (simp add: o_def)
  have "distinct (map name (filter (matchesFilters nf fl) (readdir disk p)))"
    using assms by (rule distinct_map_filter)
  then have "distinct (map fileName ?xs)"
    unfolding e .
  then have "distinct ?xs" "inj_on fileName (set ?xs)"
    by (simp_all only: distinct_map)
  then have "distinct (map fileName (sort_key fileName ?xs))"
    by (simp add: distinct_map)
  moreover have "sorted (map fileName (sort_key fileName ?xs))" by simp
  ultimately show ?thesis
    by (simp add: entryInfoList_def strict_sorted_iff)
qed

lemma finder_ordered:
  assumes "resolve disk p = Some d" "distinct_names d"
  shows "grouped_by absolutePath (recursiveFindHtml disk p)
       \<and> sorted_wrt same_dir_by_name (recursiveFindHtml disk p)"
  using assms
proof (induction d arbitrary: p)
  case (File n l c)
  then have "recursiveFindHtml disk p = []" by (simp add: readdir_Nil readdir_def)
  then show ?case by (simp add: grouped_by_def)
next
  case (Dir n l r es)
  show ?case
  proof (cases r)
    case False
    with Dir.prems have "recursiveFindHtml disk p = []" by (simp add: readdir_Nil readdir_def)
    then show ?thesis by (simp add: grouped_by_def)
  next
    case True
    let ?dirs = "entryInfoList disk p [] {Dirs, NoDotAndDotDot} NoSort"
    let ?files = "entryInfoList disk p [''*.html'', ''*.htm''] {Files, NoSymLinks} Name"
    let ?g = "\<lambda>fi. recursiveFindHtml disk (absoluteFilePath fi)"
    have names: "distinct (map name es)" using Dir.prems(2) by simp
    have rd: "readdir disk p = es" using Dir.prems(1) True by (simp add: readdir_def)
    have R: "recursiveFindHtml disk p = concat (map ?g ?dirs) @ ?files"
      by (rule recursiveFindHtml.simps)
    have sdirs: "set ?dirs = (\<lambda>e. QFileInfo p (name e)) ` {e \<in> set es. isDir e \<and> \<not> isHidden e}"
      by (simp add: set_entryInfoList rd matchesFilters_dirs)
    have child: "resolve disk (p @ [name e]) = Some e" if "e \<in> set es" for e
      using resolve_child [OF Dir.prems(1)] names that by simp
    have ih: "grouped_by absolutePath (?g di) \<and> sorted_wrt same_dir_by_name (?g di)"
      if "di \<in> set ?dirs" for di
    proof -
      from that obtain e where e: "e \<in> set es" "di = QFileInfo p (name e)" unfolding sdirs by blast
      then have "distinct_names e" using Dir.prems(2) by simp
      from Dir.IH [OF e(1) child [OF e(1)] this] show ?thesis
        using e(2) by (simp add: absoluteFilePath_def)
    qed
    have own: "absolutePath x = p" if "x \<in> set ?files" for x
      using that by (auto simp: set_entryInfoList)
    have pre: "prefix (p @ [fileName di]) (absolutePath x)"
      if "di \<in> set ?dirs" "x \<in> set (?g di)" for di x
    proof -
      from that(1) have "absolutePath di = p" unfolding sdirs by auto
      with absolutePath_prefix [OF that(2)] show ?thesis by (simp add: absoluteFilePath_def)
    qed
    have apart: "absolutePath x \<noteq> absolutePath y"
      if "di \<in> set ?dirs" "dj \<in> set ?dirs" "di \<noteq> dj" "x \<in> set (?g di)" "y \<in> set (?g dj)" for di dj x y
    proof
      assume eq: "absolutePath x = absolutePath y"
      from that have ne: "fileName di \<noteq> fileName dj" unfolding sdirs by auto
      from pre [OF that(1,4)] pre [OF that(2,5)] eq
      have "prefix (p @ [fileName di]) (absolutePath y)" "prefix (p @ [fileName dj]) (absolutePath y)"
        by simp_all
      then have "fileName di = fileName dj" by (auto simp: prefix_def)
      with ne show False by simp
    qed
    have below: "absolutePath x \<noteq> p" if "di \<in> set ?dirs" "x \<in> set (?g di)" for di x
      using pre [OF that] by (auto simp: prefix_def)
    have d1: "distinct ?dirs" using names by (simp add: distinct_entryInfoList rd)
    \<comment> \<open>groups\<close>
    have "grouped_by absolutePath (concat (map ?g ?dirs))"
    proof (rule grouped_by_concat_map [OF d1])
      show "grouped_by absolutePath (?g di)" if "di \<in> set ?dirs" for di using ih [OF that] by simp
      show "absolutePath ` set (?g di) \<inter> absolutePath ` set (?g dj) = {}"
        if "di \<in> set ?dirs" "dj \<in> set ?dirs" "di \<noteq> dj" for di dj
        using apart [OF that] by auto
    qed
    moreover have "grouped_by absolutePath ?files"
      by (rule grouped_by_const [of _ _ p]) (rule own)
    moreover have "absolutePath ` set (concat (map ?g ?dirs)) \<inter> absolutePath ` set ?files = {}"
    proof (rule ccontr)
      assume "absolutePath ` set (concat (map ?g ?dirs)) \<inter> absolutePath ` set ?files \<noteq> {}"
      then obtain x y where xy: "x \<in> set (concat (map ?g ?dirs))" "y \<in> set ?files" "absolutePath x = absolutePath y"
        by (auto simp: image_iff)
      from xy(1) obtain di where "di \<in> set ?dirs" "x \<in> set (?g di)" by auto
      from below [OF this] own [OF xy(2)] xy(3) show False by simp
    qed
    ultimately have G: "grouped_by absolutePath (recursiveFindHtml disk p)"
      unfolding R by (rule grouped_by_append)
    \<comment> \<open>names within a directory\<close>
    have "sorted_wrt same_dir_by_name (concat (map ?g ?dirs))"
    proof (rule sorted_wrt_concat_map [OF _ _ d1])
      show "sorted_wrt same_dir_by_name (?g di)" if "di \<in> set ?dirs" for di using ih [OF that] by simp
      show "same_dir_by_name x y"
        if "di \<in> set ?dirs" "dj \<in> set ?dirs" "x \<in> set (?g di)" "y \<in> set (?g dj)" "di \<noteq> dj" for di dj x y
        using apart [OF that(1,2,5,3,4)] by (simp add: same_dir_by_name_def)
    qed
    moreover have "sorted_wrt same_dir_by_name ?files"
    proof -
      have "sorted_wrt (\<lambda>a b. fileName a < fileName b) ?files"
        using sorted_names_entryInfoList [of disk p] names rd by (simp add: sorted_wrt_map)
      then show ?thesis
        by (rule sorted_wrt_mono_rel [rotated]) (simp add: same_dir_by_name_def)
    qed
    moreover have "same_dir_by_name x y" if "x \<in> set (concat (map ?g ?dirs))" "y \<in> set ?files" for x y
    proof -
      from that(1) obtain di where "di \<in> set ?dirs" "x \<in> set (?g di)" by auto
      from below [OF this] own [OF that(2)] show ?thesis by (simp add: same_dir_by_name_def)
    qed
    ultimately have S: "sorted_wrt same_dir_by_name (recursiveFindHtml disk p)"
      unfolding R by (simp add: sorted_wrt_append)
    from G S show ?thesis by simp
  qed
qed

text \<open>
  Claim C3 (within a directory the file names appear in alphabetical order) fails on
  \<open>mixed_disk\<close>: the two pages are in one directory and the finder returns
  \<open>Zebra.html\<close> before \<open>apple.html\<close>. The file listing sorts with \<open>QDir::Name\<close>
  and without \<open>QDir::IgnoreCase\<close>: upper-case letters come before lower-case ones.
\<close>

theorem finder_alphabetical_counterexample:
  "recursiveFindHtml mixed_disk [''site'']
     = [QFileInfo [''site''] ''Zebra.html'', QFileInfo [''site''] ''apple.html'']
   \<and> \<not> spec_alphabetical (map fileName (recursiveFindHtml mixed_disk [''site'']))
   \<and> spec_alphabetical [''apple.html'', ''Zebra.html'']"
  by code_simp

text \<open>
  Claim C3, amended. The result of the finder is ordered by directory, then by file
  name: the files of one directory stand together (between two files of a directory
  there is no file of another), and within a directory the names ascend in the order
  of \<open>QDir::Name\<close>, which compares character by character, by code, so that
  upper-case letters come before lower-case ones. The tree is one in which no
  directory holds two entries of one name.
\<close>

theorem finder_order_by_directory_then_name:
  assumes "resolve disk dirPath = Some d" and "distinct_names d"
  shows "(\<forall>i j k. i < j \<and> j < k \<and> k < length (recursiveFindHtml disk dirPath)
            \<and> absolutePath (recursiveFindHtml disk dirPath ! i) = absolutePath (recursiveFindHtml disk dirPath ! k)
          \<longrightarrow> absolutePath (recursiveFindHtml disk dirPath ! j) = absolutePath (recursiveFindHtml disk dirPath ! i))
       \<and> (\<forall>i j. i < j \<and> j < length (recursiveFindHtml disk dirPath)
            \<and> absolutePath (recursiveFindHtml disk dirPath ! i) = absolutePath (recursiveFindHtml disk dirPath ! j)
          \<longrightarrow> fileName (recursiveFindHtml disk dirPath ! i) < fileName (recursiveFindHtml disk dirPath ! j))"
proof -
  from finder_ordered [OF assms]
  have G: "grouped_by absolutePath (recursiveFindHtml disk dirPath)"
    and S: "sorted_wrt same_dir_by_name (recursiveFindHtml disk dirPath)" by blast+
  from G have "\<forall>i j k. i < j \<and> j < k \<and> k < length (recursiveFindHtml disk dirPath)
            \<and> absolutePath (recursiveFindHtml disk dirPath ! i) = absolutePath (recursiveFindHtml disk dirPath ! k)
          \<longrightarrow> absolutePath (recursiveFindHtml disk dirPath ! j) = absolutePath (recursiveFindHtml disk dirPath ! i)"
    unfolding grouped_by_def .
  moreover from S have "\<forall>i j. i < j \<and> j < length (recursiveFindHtml disk dirPath)
            \<and> absolutePath (recursiveFindHtml disk dirPath ! i) = absolutePath (recursiveFindHtml disk dirPath ! j)
          \<longrightarrow> fileName (recursiveFindHtml disk dirPath ! i) < fileName (recursiveFindHtml disk dirPath ! j)"
    by (simp add: sorted_wrt_iff_nth_less same_dir_by_name_def)
  ultimately show ?thesis by blast
qed


theorem finder_order_by_directory_then_name_witness:
  "resolve ordered_disk [''site''] = Some ordered_site \<and> distinct_names ordered_site
   \<and> recursiveFindHtml ordered_disk [''site'']
       = [QFileInfo [''site'', ''docs''] ''B.html'', QFileInfo [''site'', ''docs''] ''a.html'',
          QFileInfo [''site'', ''docs''] ''c.html'', QFileInfo [''site''] ''a.htm'',
          QFileInfo [''site''] ''b.html'']
   \<and> absolutePath (recursiveFindHtml ordered_disk [''site''] ! 1)
       = absolutePath (recursiveFindHtml ordered_disk [''site''] ! 0)
   \<and> fileName (recursiveFindHtml ordered_disk [''site''] ! 0)
       < fileName (recursiveFindHtml ordered_disk [''site''] ! 1)
   \<and> fileName (recursiveFindHtml ordered_disk [''site''] ! 3)
       < fileName (recursiveFindHtml ordered_disk [''site''] ! 4)"
proof -
  let ?R = "recursiveFindHtml ordered_disk [''site'']"
  have h1: "resolve ordered_disk [''site''] = Some ordered_site" by code_simp
  have h2: "distinct_names ordered_site" by code_simp
  have r: "?R = [QFileInfo [''site'', ''docs''] ''B.html'', QFileInfo [''site'', ''docs''] ''a.html'',
          QFileInfo [''site'', ''docs''] ''c.html'', QFileInfo [''site''] ''a.htm'',
          QFileInfo [''site''] ''b.html'']"
    by code_simp
  have len: "length ?R = 5" by (simp add: r)
  have k02: "absolutePath (?R ! 0) = absolutePath (?R ! 2)" by (simp add: r)
  have k01: "absolutePath (?R ! 0) = absolutePath (?R ! 1)" by (simp add: r)
  have k34: "absolutePath (?R ! 3) = absolutePath (?R ! 4)" by (simp add: r)
  note t = finder_order_by_directory_then_name [OF h1 h2]
  from t have "(0::nat) < 1 \<and> (1::nat) < 2 \<and> 2 < length ?R \<and> absolutePath (?R ! 0) = absolutePath (?R ! 2)
      \<longrightarrow> absolutePath (?R ! 1) = absolutePath (?R ! 0)"
    by blast
  then have a: "absolutePath (?R ! 1) = absolutePath (?R ! 0)" using len k02 by simp
  from t have "(0::nat) < 1 \<and> 1 < length ?R \<and> absolutePath (?R ! 0) = absolutePath (?R ! 1)
      \<longrightarrow> fileName (?R ! 0) < fileName (?R ! 1)"
    by blast
  then have b: "fileName (?R ! 0) < fileName (?R ! 1)" using len k01 by simp
  from t have "(3::nat) < 4 \<and> 4 < length ?R \<and> absolutePath (?R ! 3) = absolutePath (?R ! 4)
      \<longrightarrow> fileName (?R ! 3) < fileName (?R ! 4)"
    by blast
  then have c: "fileName (?R ! 3) < fileName (?R ! 4)" using len k34 by simp
  from h1 h2 r a b c show ?thesis by blast
qed


section \<open>Properties of the Home action\<close>

lemma matchesFilters_home:
  "matchesFilters [''*.html'', ''*.htm''] {Files} e \<longleftrightarrow> isFile e \<and> \<not> isHidden e \<and> htmlName (name e)"
  using nameFilters_html [of "name e"] by (auto simp: matchesFilters_def isFile_not_isDir)

lemma set_entryList_home:
  "set (entryList disk d [''*.html'', ''*.htm''] {Files} Name) = homeCandidates disk d"
  by (auto simp: entryList_def set_entryInfoList homeCandidates_def matchesFilters_home image_iff)

lemma sorted_entryList_Name: "sorted (entryList disk d nf fl Name)"
  by (simp add: entryList_def entryInfoList_def)

lemma hd_sorted_Min:
  fixes x :: "'a::linorder"
  assumes "sorted (x # xs)"
  shows "Min (set (x # xs)) = x"
  using assms by (intro Min_eqI) auto

text \<open>
  Claim C9 (without an index file Home loads the first file matching \<open>*.html\<close> or
  \<open>*.htm\<close> in the site directory) fails on \<open>dot_disk\<close>: the only file of the site,
  \<open>.notes.html\<close>, matches \<open>*.html\<close>, and Home loads nothing and shows the dialog.
  The listing of \<open>onHome\<close> does not pass \<open>QDir::Hidden\<close>.
\<close>

theorem home_counterexample:
  "spec_home dot_disk (siteDir example_window) = Some [''site'', ''.notes.html'']
   \<and> webview (onHome dot_disk example_window) = None
   \<and> messageBox (onHome dot_disk example_window) = [homeNotFound [''site'']]"
  by code_simp

text \<open>
  Claim C9, amended. Home loads \<open>index.html\<close> of the site directory if that path
  exists; else \<open>index.htm\<close> if that path exists; else the least name, in the order of
  \<open>QDir::Name\<close>, among the files directly in the site directory that are not hidden
  and end in \<open>.html\<close> or \<open>.htm\<close> (letter case ignored); and if there is no such
  file it loads nothing and adds the information dialog \<open>Home not found\<close>.
\<close>

theorem onHome_resolution:
  "(exists_path disk (siteDir w @ [''index.html''])
      \<longrightarrow> onHome disk w = loadLocal (siteDir w @ [''index.html'']) w)
   \<and> (\<not> exists_path disk (siteDir w @ [''index.html'']) \<and> exists_path disk (siteDir w @ [''index.htm''])
      \<longrightarrow> onHome disk w = loadLocal (siteDir w @ [''index.htm'']) w)
   \<and> (\<not> exists_path disk (siteDir w @ [''index.html'']) \<and> \<not> exists_path disk (siteDir w @ [''index.htm''])
        \<and> homeCandidates disk (siteDir w) \<noteq> {}
      \<longrightarrow> onHome disk w = loadLocal (siteDir w @ [Min (homeCandidates disk (siteDir w))]) w)
   \<and> (\<not> exists_path disk (siteDir w @ [''index.html'']) \<and> \<not> exists_path disk (siteDir w @ [''index.htm''])
        \<and> homeCandidates disk (siteDir w) = {}
      \<longrightarrow> onHome disk w = w\<lparr>messageBox := messageBox w @ [homeNotFound (siteDir w)]\<rparr>)"
proof -
  let ?l = "entryList disk (siteDir w) [''*.html'', ''*.htm''] {Files} Name"
  have a: "onHome disk w = loadLocal (siteDir w @ [''index.html'']) w"
    if "exists_path disk (siteDir w @ [''index.html''])"
    using that by (simp add: onHome_def QDir_filePath_def Let_def)
  have b: "onHome disk w = loadLocal (siteDir w @ [''index.htm'']) w"
    if "\<not> exists_path disk (siteDir w @ [''index.html''])" "exists_path disk (siteDir w @ [''index.htm''])"
    using that by (simp add: onHome_def QDir_filePath_def Let_def)
  have rest: "onHome disk w =
      (case ?l of first # rest \<Rightarrow> loadLocal (siteDir w @ [first]) w
                | [] \<Rightarrow> w\<lparr>messageBox := messageBox w @ [homeNotFound (siteDir w)]\<rparr>)"
    if "\<not> exists_path disk (siteDir w @ [''index.html''])" "\<not> exists_path disk (siteDir w @ [''index.htm''])"
    using that by (simp add: onHome_def QDir_filePath_def Let_def split: list.splits)
  have c: "onHome disk w = loadLocal (siteDir w @ [Min (homeCandidates disk (siteDir w))]) w"
    if "\<not> exists_path disk (siteDir w @ [''index.html''])" "\<not> exists_path disk (siteDir w @ [''index.htm''])"
       "homeCandidates disk (siteDir w) \<noteq> {}"
  proof -
    from that(3) have "?l \<noteq> []" using set_entryList_home [of disk "siteDir w"] by auto
    then obtain f fs where l: "?l = f # fs" by (cases ?l) auto
    have "sorted ?l" by (rule sorted_entryList_Name)
    then have "sorted (f # fs)" unfolding l .
    then have "Min (set (f # fs)) = f" by (rule hd_sorted_Min)
    then have "Min (homeCandidates disk (siteDir w)) = f"
      using l set_entryList_home [of disk "siteDir w"] by simp
    with rest [OF that(1,2)] l show ?thesis by simp
  qed
  have d: "onHome disk w = w\<lparr>messageBox := messageBox w @ [homeNotFound (siteDir w)]\<rparr>"
    if "\<not> exists_path disk (siteDir w @ [''index.html''])" "\<not> exists_path disk (siteDir w @ [''index.htm''])"
       "homeCandidates disk (siteDir w) = {}"
  proof -
    from that(3) have "?l = []" using set_entryList_home [of disk "siteDir w"] by simp
    with rest [OF that(1,2)] show ?thesis by simp
  qed
  from a b c d show ?thesis by blast
qed

theorem onHome_resolution_witness:
  "exists_path case_disk [''site'', ''index.html'']
   \<and> webview (onHome case_disk example_window) = Some [''site'', ''index.html'']
   \<and> \<not> exists_path htm_disk [''site'', ''index.html''] \<and> exists_path htm_disk [''site'', ''index.htm'']
   \<and> webview (onHome htm_disk example_window) = Some [''site'', ''index.htm'']
   \<and> \<not> exists_path example_disk [''site'', ''index.html''] \<and> \<not> exists_path example_disk [''site'', ''index.htm'']
   \<and> homeCandidates example_disk [''site''] = {''b.html'', ''A.HTM'', ''ln.html''}
   \<and> webview (onHome example_disk example_window) = Some [''site'', ''A.HTM'']
   \<and> \<not> exists_path dot_disk [''site'', ''index.html''] \<and> \<not> exists_path dot_disk [''site'', ''index.htm'']
   \<and> homeCandidates dot_disk [''site''] = {}
   \<and> onHome dot_disk example_window = example_window\<lparr>messageBox := [homeNotFound [''site'']]\<rparr>"
proof -
  have sd: "siteDir example_window = [''site'']" by (simp add: example_window_def)
  have mb: "messageBox example_window = []" by (simp add: example_window_def)
  have a1: "exists_path case_disk [''site'', ''index.html'']" by code_simp
  have b1: "\<not> exists_path htm_disk [''site'', ''index.html'']" by code_simp
  have b2: "exists_path htm_disk [''site'', ''index.htm'']" by code_simp
  have c1: "\<not> exists_path example_disk [''site'', ''index.html'']" by code_simp
  have c2: "\<not> exists_path example_disk [''site'', ''index.htm'']" by code_simp
  have "set (entryList example_disk [''site''] [''*.html'', ''*.htm''] {Files} Name) = {''b.html'', ''A.HTM'', ''ln.html''}"
    by code_simp
  then have c3: "homeCandidates example_disk [''site''] = {''b.html'', ''A.HTM'', ''ln.html''}"
    by (simp add: set_entryList_home)
  have c4: "Min {''b.html'', ''A.HTM'', ''ln.html''} = ''A.HTM''" by code_simp
  have d1: "\<not> exists_path dot_disk [''site'', ''index.html'']" by code_simp
  have d2: "\<not> exists_path dot_disk [''site'', ''index.htm'']" by code_simp
  have "set (entryList dot_disk [''site''] [''*.html'', ''*.htm''] {Files} Name) = {}"
    by code_simp
  then have d3: "homeCandidates dot_disk [''site''] = {}"
    by (simp add: set_entryList_home)
  from onHome_resolution [of case_disk example_window] a1
  have a: "webview (onHome case_disk example_window) = Some [''site'', ''index.html'']"
    by (simp add: sd loadLocal_def)
  from onHome_resolution [of htm_disk example_window] b1 b2
  have b: "webview (onHome htm_disk example_window) = Some [''site'', ''index.htm'']"
    by (simp add: sd loadLocal_def)
  from onHome_resolution [of example_disk example_window] c1 c2 c3 c4
  have c: "webview (onHome example_disk example_window) = Some [''site'', ''A.HTM'']"
    by (simp add: sd loadLocal_def)
  from onHome_resolution [of dot_disk example_window] d1 d2 d3
  have d: "onHome dot_disk example_window = example_window\<lparr>messageBox := [homeNotFound [''site'']]\<rparr>"
    by (simp add: sd mb)
  from a1 a b1 b2 b c1 c2 c3 c d1 d2 d3 d show ?thesis by blast
qed


end
